theory Spec2Isabelle
  imports Complex_Main
begin

section \<open>Data model of \<open>api/search.py\<close>\<close>

text \<open>
  The module keeps its data in global dictionaries that are filled once when the module
  is loaded and only read afterwards.  A Python \<open>dict\<close> is modelled as an association
  list in insertion order (the order in which \<open>items()\<close> iterates); its keys are
  distinct, which \<open>dict_wf\<close> states.  Python \<open>float\<close> values are modelled as real
  numbers, so rounding is not part of the model; \<open>int\<close> values are unbounded integers.
  Strings are lists of characters.  The string functions below are the builtins
  \<open>strip\<close>, \<open>lower\<close>, \<open>split\<close>, \<open>int\<close> and \<open>str\<close> on ASCII text; statements about
  them assume \<open>py_ascii\<close> of their arguments.
\<close>

datatype error = ZeroDivisionError | ValueError

record doc_meta =
  url :: string
  title :: string
  image_url :: string
  doc_len :: int

type_synonym postings = "(string \<times> int) list"
type_synonym scores = "(string \<times> real) list"

record globals =
  INVERTED_INDEX :: "(string \<times> postings) list"
  DOC_META :: "(string \<times> doc_meta) list"
  DOC_LENGTHS :: "(string \<times> int) list"
  DOC_CONTENT :: "(string \<times> string) list"
  TOTAL_DOCS :: nat
  INIT_ERROR :: "string option"

definition dict_wf :: "('k \<times> 'v) list \<Rightarrow> bool" where
  "dict_wf d = distinct (map fst d)"

definition globals_wf :: "globals \<Rightarrow> bool" where
  "globals_wf st =
     (dict_wf (INVERTED_INDEX st) \<and> list_all (\<lambda>tp. dict_wf (snd tp)) (INVERTED_INDEX st) \<and>
      dict_wf (DOC_META st) \<and> dict_wf (DOC_LENGTHS st) \<and> dict_wf (DOC_CONTENT st))"

section \<open>BM25 ranking\<close>

text \<open>The local constants \<open>k1 = 1.5\<close> and \<open>b = 0.75\<close> of \<open>bm25_search\<close>.\<close>

definition bm25_k1 :: real where
  "bm25_k1 = 1.5"

definition bm25_b :: real where
  "bm25_b = 0.75"

text \<open>\<open>N = TOTAL_DOCS or 1\<close>\<close>

definition bm25_N :: "globals \<Rightarrow> nat" where
  "bm25_N st = (if TOTAL_DOCS st = 0 then 1 else TOTAL_DOCS st)"

text \<open>\<open>avg_dl\<close>: the mean of the stored lengths, \<open>300.0\<close> when \<open>DOC_LENGTHS\<close> is empty.\<close>

definition avg_dl :: "globals \<Rightarrow> real" where
  "avg_dl st =
     (if DOC_LENGTHS st \<noteq> []
      then real_of_int (sum_list (map snd (DOC_LENGTHS st))) / real (length (DOC_LENGTHS st))
      else 300)"

text \<open>
  \<open>idf = math.log((N - df + 0.5) / (df + 0.5) + 1)\<close>; \<open>math.log\<close> raises \<open>ValueError\<close>
  on an argument that is not positive.
\<close>

definition idf :: "nat \<Rightarrow> nat \<Rightarrow> error + real" where
  "idf N df =
     (let x = (real N - real df + 0.5) / (real df + 0.5) + 1
      in if x \<le> 0 then Inl ValueError else Inr (ln x))"

text \<open>
  The body of the inner loop up to the value of \<open>score\<close>: the two float divisions raise
  \<open>ZeroDivisionError\<close> on a zero divisor.
\<close>

definition posting_score :: "globals \<Rightarrow> real \<Rightarrow> real \<Rightarrow> string \<Rightarrow> int \<Rightarrow> error + real" where
  "posting_score st avg idf_t doc_id freq =
     (let tf = real_of_int freq;
          dl = (case map_of (DOC_LENGTHS st) doc_id of Some l \<Rightarrow> real_of_int l | None \<Rightarrow> avg)
      in if avg = 0 then Inl ZeroDivisionError
         else let den = tf + bm25_k1 * (1 - bm25_b + bm25_b * (dl / avg))
              in if den = 0 then Inl ZeroDivisionError
                 else Inr (idf_t * ((tf * (bm25_k1 + 1)) / den)))"

text \<open>
  \<open>scores[doc_id] += score\<close> on a \<open>defaultdict(float)\<close>: a new key is appended with
  \<open>0.0 + score\<close>, a known key keeps its place.  The addition is the exact one of the
  real numbers; the program's is a float addition, rounded each time.
\<close>

fun add_score :: "string \<Rightarrow> real \<Rightarrow> scores \<Rightarrow> scores" where
  "add_score d s [] = [(d, 0 + s)]"
| "add_score d s ((k, v) # sc) =
     (if k = d then (k, v + s) # sc else (k, v) # add_score d s sc)"

text \<open>
  The inner loop \<open>for raw_doc_id, freq in postings.items()\<close>.  The keys of a JSON object
  are strings and the stored frequencies are integers, so \<open>str(raw_doc_id)\<close> and
  \<open>int(freq)\<close> return their arguments.
\<close>

fun score_postings :: "globals \<Rightarrow> real \<Rightarrow> real \<Rightarrow> postings \<Rightarrow> scores \<Rightarrow> error + scores" where
  "score_postings st avg idf_t [] sc = Inr sc"
| "score_postings st avg idf_t ((doc_id, freq) # ps) sc =
     (case posting_score st avg idf_t doc_id freq of
        Inl e \<Rightarrow> Inl e
      | Inr s \<Rightarrow> score_postings st avg idf_t ps (add_score doc_id s sc))"

text \<open>The outer loop \<open>for term in query_terms\<close>.\<close>

fun score_terms :: "globals \<Rightarrow> nat \<Rightarrow> real \<Rightarrow> string list \<Rightarrow> scores \<Rightarrow> error + scores" where
  "score_terms st N avg [] sc = Inr sc"
| "score_terms st N avg (t # ts) sc =
     (case map_of (INVERTED_INDEX st) t of
        None \<Rightarrow> score_terms st N avg ts sc
      | Some ps \<Rightarrow>
          if ps = [] then score_terms st N avg ts sc
          else let df = length ps
               in if df = 0 then score_terms st N avg ts sc
                  else (case idf N df of
                          Inl e \<Rightarrow> Inl e
                        | Inr idf_t \<Rightarrow>
                            (case score_postings st avg idf_t ps sc of
                               Inl e \<Rightarrow> Inl e
                             | Inr sc' \<Rightarrow> score_terms st N avg ts sc')))"

text \<open>Lines 110 to 144 of \<open>bm25_search\<close>: the accumulated \<open>scores\<close> dictionary.\<close>

definition bm25_scores :: "globals \<Rightarrow> string list \<Rightarrow> error + scores" where
  "bm25_scores st query_terms = score_terms st (bm25_N st) (avg_dl st) query_terms []"

text \<open>
  \<open>sorted(scores.items(), key=lambda x: x[1], reverse=True)\<close>: a stable sort by
  descending score, entries of equal score keeping their order.
\<close>

definition ranked :: "scores \<Rightarrow> scores" where
  "ranked sc = sort_key (\<lambda>x. - snd x) sc"

text \<open>The slice \<open>xs[:k]\<close>, where a negative \<open>k\<close> counts from the end.\<close>

definition slice_to :: "'a list \<Rightarrow> int \<Rightarrow> 'a list" where
  "slice_to xs k = (if 0 \<le> k then take (nat k) xs else take (length xs - nat (- k)) xs)"

record search_result =
  res_doc_id :: string
  res_title :: string
  res_url :: string
  res_image_url :: string
  res_doc_len :: "int option"
  res_score :: real

definition result_entry :: "globals \<Rightarrow> string \<times> real \<Rightarrow> search_result" where
  "result_entry st x =
     (case map_of (DOC_META st) (fst x) of
        None \<Rightarrow>
          \<lparr>res_doc_id = fst x, res_title = ''Untitled'', res_url = '''', res_image_url = '''',
           res_doc_len = None, res_score = snd x\<rparr>
      | Some meta \<Rightarrow>
          \<lparr>res_doc_id = fst x, res_title = title meta, res_url = url meta,
           res_image_url = image_url meta, res_doc_len = Some (doc_len meta),
           res_score = snd x\<rparr>)"

definition bm25_search :: "globals \<Rightarrow> string list \<Rightarrow> int \<Rightarrow> error + search_result list" where
  "bm25_search st query_terms top_k =
     (if INVERTED_INDEX st = [] then Inr []
      else (case bm25_scores st query_terms of
              Inl e \<Rightarrow> Inl e
            | Inr sc \<Rightarrow> Inr (map (result_entry st) (slice_to (ranked sc) top_k))))"

section \<open>String helpers\<close>

definition py_ascii :: "string \<Rightarrow> bool" where
  "py_ascii s = list_all (\<lambda>c. (of_char c :: nat) < 128) s"

text \<open>
  The whitespace of \<open>str.strip\<close> and \<open>str.split\<close>: tab, line feed, vertical tab, form
  feed, carriage return, the four separators \<open>0x1C\<close> to \<open>0x1F\<close>, and the space.
\<close>

definition py_isspace :: "char \<Rightarrow> bool" where
  "py_isspace c = (c \<in> set [CHR 0x09, CHR 0x0A, CHR 0x0B, CHR 0x0C, CHR 0x0D,
                            CHR 0x1C, CHR 0x1D, CHR 0x1E, CHR 0x1F, CHR 0x20])"

definition py_strip :: "string \<Rightarrow> string" where
  "py_strip s = rev (dropWhile py_isspace (rev (dropWhile py_isspace s)))"

definition lower_char :: "char \<Rightarrow> char" where
  "lower_char c =
     (let n = (of_char c :: nat) in if 65 \<le> n \<and> n \<le> 90 then char_of (n + 32) else c)"

definition py_lower :: "string \<Rightarrow> string" where
  "py_lower s = map lower_char s"

fun split_ws :: "string \<Rightarrow> string \<Rightarrow> string list" where
  "split_ws [] cur = (if cur = [] then [] else [rev cur])"
| "split_ws (c # cs) cur =
     (if py_isspace c then (if cur = [] then split_ws cs [] else rev cur # split_ws cs [])
      else split_ws cs (c # cur))"

definition py_split :: "string \<Rightarrow> string list" where
  "py_split s = split_ws s []"

definition is_digit :: "char \<Rightarrow> bool" where
  "is_digit c = (let n = (of_char c :: nat) in 48 \<le> n \<and> n \<le> 57)"

definition digit_val :: "char \<Rightarrow> nat" where
  "digit_val c = of_char c - 48"

text \<open>
  \<open>int(s)\<close> in base ten.  Whitespace around the number is skipped, and for \<open>int\<close> that is
  tab, line feed, vertical tab, form feed, carriage return and space only: the separators
  \<open>0x1C\<close> to \<open>0x1F\<close> are not skipped.  One sign may lead, the digits may be grouped by
  single underscores, and more than 4300 digits are refused.  \<open>None\<close> stands for
  \<open>ValueError\<close>.
\<close>

definition int_isspace :: "char \<Rightarrow> bool" where
  "int_isspace c = (c \<in> set [CHR 0x09, CHR 0x0A, CHR 0x0B, CHR 0x0C, CHR 0x0D, CHR 0x20])"

definition int_strip :: "string \<Rightarrow> string" where
  "int_strip s = rev (dropWhile int_isspace (rev (dropWhile int_isspace s)))"

definition int_max_str_digits :: nat where
  "int_max_str_digits = 4300"

fun parse_digits :: "string \<Rightarrow> nat \<Rightarrow> nat option" where
  "parse_digits [] acc = Some acc"
| "parse_digits [c] acc = (if is_digit c then Some (10 * acc + digit_val c) else None)"
| "parse_digits (c # d # ds) acc =
     (if is_digit c then parse_digits (d # ds) (10 * acc + digit_val c)
      else if c = CHR ''_'' \<and> is_digit d then parse_digits ds (10 * acc + digit_val d)
      else None)"

definition parse_nat :: "string \<Rightarrow> nat option" where
  "parse_nat s = (case s of [] \<Rightarrow> None
                  | c # cs \<Rightarrow> if is_digit c then parse_digits cs (digit_val c) else None)"

definition parse_limited :: "string \<Rightarrow> nat option" where
  "parse_limited s =
     (if int_max_str_digits < length (filter is_digit s) then None else parse_nat s)"

definition py_int :: "string \<Rightarrow> int option" where
  "py_int s =
     (case int_strip s of
        [] \<Rightarrow> None
      | c # cs \<Rightarrow>
          if c = CHR ''-'' then map_option (\<lambda>n. - int n) (parse_limited cs)
          else if c = CHR ''+'' then map_option int (parse_limited cs)
          else map_option int (parse_limited (c # cs)))"

fun str_nat :: "nat \<Rightarrow> string" where
  "str_nat n = (if n < 10 then [char_of (48 + n)] else str_nat (n div 10) @ [char_of (48 + n mod 10)])"

declare str_nat.simps [simp del]

definition py_str :: "int \<Rightarrow> string" where
  "py_str i = (if i < 0 then CHR ''-'' # str_nat (nat (- i)) else str_nat (nat i))"

section \<open>The request handler\<close>

text \<open>
  The query parameters a request carries, after \<open>parse_qs\<close>: the first value of
  \<open>doc_id\<close>, \<open>q\<close> and \<open>top_k\<close>, each absent or a string.
\<close>

record request =
  doc_id_param :: "string option"
  q_param :: "string option"
  top_k_param :: "string option"

record detail_doc =
  doc_doc_id :: string
  doc_title :: string
  doc_url :: string
  doc_image_url :: string
  doc_doc_len :: "int option"
  doc_content :: string

datatype payload =
    INIT_ERROR_body string
  | DOCUMENT_NOT_FOUND string
  | Document detail_doc
  | MISSING_QUERY
  | Search_results string nat "search_result list"
  | RUNTIME_ERROR error

text \<open>
  What a request made the handler do besides answering: a lookup in the catalog tables
  or a call of \<open>bm25_search\<close>.
\<close>

datatype event = Catalog_lookup string | Ranking "string list" int

type_synonym response = "nat \<times> payload"

text \<open>\<open>str(int(doc_id_param))\<close>, or the parameter itself on \<open>ValueError\<close>.\<close>

definition normalize_doc_id :: "string \<Rightarrow> string" where
  "normalize_doc_id p = (case py_int p of Some n \<Rightarrow> py_str n | None \<Rightarrow> p)"

text \<open>Detail mode, lines 187 to 221.\<close>

definition detail_mode :: "globals \<Rightarrow> string \<Rightarrow> response \<times> event list" where
  "detail_mode st p =
     (let doc_id = normalize_doc_id p;
          meta = map_of (DOC_META st) doc_id;
          content = (case map_of (DOC_CONTENT st) doc_id of Some c \<Rightarrow> c | None \<Rightarrow> '''')
      in if meta = None \<and> content = ''''
         then ((404, DOCUMENT_NOT_FOUND doc_id), [Catalog_lookup doc_id])
         else ((200, Document
                  \<lparr>doc_doc_id = doc_id,
                   doc_title = (case meta of Some m \<Rightarrow> title m | None \<Rightarrow> ''Untitled''),
                   doc_url = (case meta of Some m \<Rightarrow> url m | None \<Rightarrow> ''''),
                   doc_image_url = (case meta of Some m \<Rightarrow> image_url m | None \<Rightarrow> ''''),
                   doc_doc_len = map_option doc_len meta,
                   doc_content = content\<rparr>),
               [Catalog_lookup doc_id]))"

text \<open>Search mode, lines 226 to 255; an exception of the ranker is caught at line 257.\<close>

definition search_mode :: "globals \<Rightarrow> string option \<Rightarrow> string option \<Rightarrow> response \<times> event list" where
  "search_mode st qp kp =
     (let q = py_strip (case qp of Some s \<Rightarrow> s | None \<Rightarrow> '''');
          top_k_str = (case kp of Some s \<Rightarrow> s | None \<Rightarrow> ''20'')
      in if q = '''' then ((400, MISSING_QUERY), [])
         else let top_k = (case py_int top_k_str of Some n \<Rightarrow> n | None \<Rightarrow> 20);
                  query_terms = py_split (py_lower q)
              in (case bm25_search st query_terms top_k of
                    Inl e \<Rightarrow> ((500, RUNTIME_ERROR e), [Ranking query_terms top_k])
                  | Inr results \<Rightarrow>
                      ((200, Search_results q (length results) results),
                       [Ranking query_terms top_k])))"

definition do_GET :: "globals \<Rightarrow> request \<Rightarrow> response \<times> event list" where
  "do_GET st req =
     (case INIT_ERROR st of
        Some msg \<Rightarrow> ((500, INIT_ERROR_body msg), [])
      | None \<Rightarrow>
          (case doc_id_param req of
             Some p \<Rightarrow> detail_mode st p
           | None \<Rightarrow> search_mode st (q_param req) (top_k_param req)))"

section \<open>Notions used to state the properties\<close>

text \<open>The accumulated score of a document: its entry in \<open>scores\<close>, \<open>0\<close> when it has none.\<close>

definition score_of :: "scores \<Rightarrow> string \<Rightarrow> real" where
  "score_of sc d = (case map_of sc d of Some v \<Rightarrow> v | None \<Rightarrow> 0)"

text \<open>
  The ranking formula in the words of the specification: the inverse document frequency,
  the contribution of one posting, the length of a document with its fall-back, and the
  sum over the occurrences of the query terms whose postings hold the document.
\<close>

definition spec_idf :: "nat \<Rightarrow> nat \<Rightarrow> real" where
  "spec_idf N df = ln ((real N - real df + 0.5) / (real df + 0.5) + 1)"

definition spec_contribution :: "real \<Rightarrow> real \<Rightarrow> real \<Rightarrow> real \<Rightarrow> real" where
  "spec_contribution idf_t tf dl avg =
     idf_t * (tf * (1.5 + 1)) / (tf + 1.5 * (1 - 0.75 + 0.75 * dl / avg))"

definition length_of :: "globals \<Rightarrow> string \<Rightarrow> real" where
  "length_of st d =
     (case map_of (DOC_LENGTHS st) d of Some l \<Rightarrow> real_of_int l | None \<Rightarrow> avg_dl st)"

definition spec_score :: "globals \<Rightarrow> string list \<Rightarrow> string \<Rightarrow> real" where
  "spec_score st q d =
     (\<Sum>t\<leftarrow>q. case map_of (INVERTED_INDEX st) t of
               None \<Rightarrow> 0
             | Some ps \<Rightarrow>
                 (case map_of ps d of
                    None \<Rightarrow> 0
                  | Some freq \<Rightarrow>
                      spec_contribution (spec_idf (bm25_N st) (length ps)) (real_of_int freq)
                        (length_of st d) (avg_dl st)))"

text \<open>The value of \<open>score\<close> for one posting, and its sums over a postings list and a term.\<close>

definition posting_value :: "globals \<Rightarrow> real \<Rightarrow> real \<Rightarrow> string \<Rightarrow> int \<Rightarrow> real" where
  "posting_value st avg idf_t doc_id freq =
     idf_t * ((real_of_int freq * (bm25_k1 + 1)) /
       (real_of_int freq + bm25_k1 * (1 - bm25_b + bm25_b *
          ((case map_of (DOC_LENGTHS st) doc_id of Some l \<Rightarrow> real_of_int l | None \<Rightarrow> avg) / avg))))"

definition postings_sum :: "globals \<Rightarrow> real \<Rightarrow> real \<Rightarrow> postings \<Rightarrow> string \<Rightarrow> real" where
  "postings_sum st avg idf_t ps d =
     (\<Sum>x\<leftarrow>ps. if fst x = d then posting_value st avg idf_t (fst x) (snd x) else 0)"

definition term_sum :: "globals \<Rightarrow> nat \<Rightarrow> real \<Rightarrow> string \<Rightarrow> string \<Rightarrow> real" where
  "term_sum st N avg t d =
     (case map_of (INVERTED_INDEX st) t of
        None \<Rightarrow> 0
      | Some ps \<Rightarrow>
          postings_sum st avg
            (ln ((real N - real (length ps) + 0.5) / (real (length ps) + 0.5) + 1)) ps d)"

text \<open>The documents held by the postings of some query term.\<close>

definition matched_docs :: "globals \<Rightarrow> string list \<Rightarrow> string set" where
  "matched_docs st q =
     (\<Union>t\<in>set q. case map_of (INVERTED_INDEX st) t of None \<Rightarrow> {} | Some ps \<Rightarrow> fst ` set ps)"

text \<open>
  Conditions on the loaded data: every stored frequency is at least one, no postings list
  is longer than the collection size, and the stored lengths are not negative, or all
  positive.
\<close>

definition freqs_positive :: "globals \<Rightarrow> bool" where
  "freqs_positive st =
     list_all (\<lambda>tp. list_all (\<lambda>x. 1 \<le> snd x) (snd tp)) (INVERTED_INDEX st)"

definition df_bounded :: "globals \<Rightarrow> bool" where
  "df_bounded st = list_all (\<lambda>tp. length (snd tp) \<le> bm25_N st) (INVERTED_INDEX st)"

definition lengths_nonneg :: "globals \<Rightarrow> bool" where
  "lengths_nonneg st = list_all (\<lambda>x. 0 \<le> snd x) (DOC_LENGTHS st)"

definition lengths_positive :: "globals \<Rightarrow> bool" where
  "lengths_positive st = list_all (\<lambda>x. 0 < snd x) (DOC_LENGTHS st)"

section \<open>Example data\<close>

text \<open>
  Ten documents of mean length 40, and one term held by two of them: document \<open>0\<close> of
  length 50 three times, document \<open>1\<close> of length 30 once.
\<close>

definition bm25_example :: globals where
  "bm25_example =
     \<lparr>INVERTED_INDEX = [(''kompas'', [(''0'', 3), (''1'', 1)])],
      DOC_META = [],
      DOC_LENGTHS = [(''0'', 50), (''1'', 30), (''2'', 40), (''3'', 40), (''4'', 40),
                     (''5'', 40), (''6'', 40), (''7'', 40), (''8'', 40), (''9'', 40)],
      DOC_CONTENT = [],
      TOTAL_DOCS = 10,
      INIT_ERROR = None\<rparr>"

text \<open>Two documents without stored lengths, both holding the term \<open>a\<close> once.\<close>

definition two_doc_example :: globals where
  "two_doc_example =
     \<lparr>INVERTED_INDEX = [(''a'', [(''0'', 1), (''1'', 1)])],
      DOC_META = [],
      DOC_LENGTHS = [],
      DOC_CONTENT = [],
      TOTAL_DOCS = 2,
      INIT_ERROR = None\<rparr>"

text \<open>A metadata table whose \<open>doc_len\<close> column holds a negative number.\<close>

definition negative_length_example :: globals where
  "negative_length_example =
     \<lparr>INVERTED_INDEX = [(''a'', [(''0'', 1)])],
      DOC_META = [(''0'', \<lparr>url = '''', title = ''A'', image_url = '''', doc_len = - 100\<rparr>),
                  (''1'', \<lparr>url = '''', title = ''B'', image_url = '''', doc_len = 102\<rparr>)],
      DOC_LENGTHS = [(''0'', - 100), (''1'', 102)],
      DOC_CONTENT = [],
      TOTAL_DOCS = 2,
      INIT_ERROR = None\<rparr>"

text \<open>A corpus row without text and without a metadata row.\<close>

definition empty_content_example :: globals where
  "empty_content_example =
     \<lparr>INVERTED_INDEX = [],
      DOC_META = [],
      DOC_LENGTHS = [],
      DOC_CONTENT = [(''0'', '''')],
      TOTAL_DOCS = 0,
      INIT_ERROR = None\<rparr>"

text \<open>A catalog with metadata and text for document \<open>5\<close>, and a failed start.\<close>

definition catalog_example :: globals where
  "catalog_example =
     \<lparr>INVERTED_INDEX = [(''kompas'', [(''5'', 2)])],
      DOC_META = [(''5'', \<lparr>url = ''u'', title = ''Berita'', image_url = ''i'', doc_len = 7\<rparr>)],
      DOC_LENGTHS = [(''5'', 7)],
      DOC_CONTENT = [(''5'', ''isi''), (''6'', ''lain'')],
      TOTAL_DOCS = 1,
      INIT_ERROR = None\<rparr>"


definition failed_example :: globals where
  "failed_example = catalog_example\<lparr>INIT_ERROR := Some ''Failed to load inverted_index.json''\<rparr>"

section \<open>The accumulated scores\<close>

lemma score_of_add_score:
  "score_of (add_score d s sc) d' = (if d' = d then score_of sc d + s else score_of sc d')"
  by (induction sc) (auto simp: score_of_def)

lemma keys_add_score: "fst ` set (add_score d s sc) = insert d (fst ` set sc)"
  by (induction d s sc rule: add_score.induct) (auto simp: insert_commute)

lemma distinct_add_score:
  "distinct (map fst sc) \<Longrightarrow> distinct (map fst (add_score d s sc))"
proof (induction d s sc rule: add_score.induct)
  case (1 d s)
  show ?case by simp
next
  case (2 d s k v sc)
  show ?case
  proof (cases "k = d")
    case True
    with "2.prems" show ?thesis by simp
  next
    case False
    from "2.prems" have "k \<notin> fst ` set sc" and "distinct (map fst sc)" by simp_all
    with False "2.IH" show ?thesis by (simp add: keys_add_score)
  qed
qed

lemma score_of_member: "distinct (map fst sc) \<Longrightarrow> (d, v) \<in> set sc \<Longrightarrow> score_of sc d = v"
  by (simp add: score_of_def)

lemma posting_score_Inr:
  "posting_score st avg i d f = Inr s \<Longrightarrow> s = posting_value st avg i d f"
  by (auto simp: posting_score_def posting_value_def Let_def split: if_splits)

lemma idf_Inr: "idf N df = Inr i \<Longrightarrow> i = ln ((real N - real df + 0.5) / (real df + 0.5) + 1)"
  by (auto simp: idf_def Let_def split: if_splits)

lemma postings_sum_Cons:
  "postings_sum st avg i (p # ps) d =
     (if fst p = d then posting_value st avg i (fst p) (snd p) else 0) + postings_sum st avg i ps d"
  by (simp add: postings_sum_def)

lemma postings_sum_absent: "d \<notin> fst ` set ps \<Longrightarrow> postings_sum st avg i ps d = 0"
  by (induction ps) (auto simp: postings_sum_def)

text \<open>One run of the inner loop adds, for each document, the values of its postings.\<close>

lemma score_postings_sum:
  "score_postings st avg i ps sc = Inr sc' \<Longrightarrow>
   score_of sc' d = score_of sc d + postings_sum st avg i ps d"
proof (induction ps arbitrary: sc)
  case Nil
  then show ?case by (simp add: postings_sum_def)
next
  case (Cons p ps)
  obtain k f where p: "p = (k, f)" by (cases p)
  from Cons.prems p obtain s where s: "posting_score st avg i k f = Inr s"
    and run: "score_postings st avg i ps (add_score k s sc) = Inr sc'"
    by (auto split: sum.splits)
  have "score_of sc' d = score_of (add_score k s sc) d + postings_sum st avg i ps d"
    by (rule Cons.IH [OF run])
  with posting_score_Inr [OF s] p show ?case
    by (simp add: score_of_add_score postings_sum_Cons)
qed

lemma score_postings_keys:
  "score_postings st avg i ps sc = Inr sc' \<Longrightarrow> fst ` set sc' = fst ` set sc \<union> fst ` set ps"
proof (induction ps arbitrary: sc)
  case Nil
  then show ?case by simp
next
  case (Cons p ps)
  obtain k f where p: "p = (k, f)" by (cases p)
  from Cons.prems p obtain s where
    run: "score_postings st avg i ps (add_score k s sc) = Inr sc'"
    by (auto split: sum.splits)
  from Cons.IH [OF run] p show ?case by (auto simp: keys_add_score)
qed

lemma score_postings_distinct:
  "score_postings st avg i ps sc = Inr sc' \<Longrightarrow> distinct (map fst sc) \<Longrightarrow> distinct (map fst sc')"
proof (induction ps arbitrary: sc)
  case Nil
  then show ?case by simp
next
  case (Cons p ps)
  obtain k f where p: "p = (k, f)" by (cases p)
  from Cons.prems(1) p obtain s where
    run: "score_postings st avg i ps (add_score k s sc) = Inr sc'"
    by (auto split: sum.splits)
  from Cons.prems(2) have "distinct (map fst (add_score k s sc))" by (rule distinct_add_score)
  with run show ?case by (rule Cons.IH)
qed

text \<open>Whether the inner loop raises does not depend on the scores accumulated so far.\<close>

lemma score_postings_any_acc:
  "score_postings st avg i ps sc = Inr sc' \<Longrightarrow> \<exists>sc2'. score_postings st avg i ps sc2 = Inr sc2'"
proof (induction ps arbitrary: sc sc2)
  case Nil
  then show ?case by simp
next
  case (Cons p ps)
  obtain k f where p: "p = (k, f)" by (cases p)
  from Cons.prems p obtain s where s: "posting_score st avg i k f = Inr s"
    and run: "score_postings st avg i ps (add_score k s sc) = Inr sc'"
    by (auto split: sum.splits)
  from Cons.IH [OF run, of "add_score k s sc2"] s p show ?case by simp
qed

text \<open>
  A step of the outer loop that scores a term: the three facts every proof about
  \<open>score_terms\<close> starts from.
\<close>

lemma score_terms_step:
  assumes "score_terms st N avg (t # ts) sc = Inr sc'"
    and "map_of (INVERTED_INDEX st) t = Some ps" and "ps \<noteq> []"
  obtains i mid where "idf N (length ps) = Inr i"
    and "score_postings st avg i ps sc = Inr mid"
    and "score_terms st N avg ts mid = Inr sc'"
  using assms by (auto simp: Let_def split: sum.splits)

lemma score_terms_skip:
  assumes "map_of (INVERTED_INDEX st) t = None \<or> map_of (INVERTED_INDEX st) t = Some []"
  shows "score_terms st N avg (t # ts) sc = score_terms st N avg ts sc"
  using assms by auto

lemma term_sum_skip:
  assumes "map_of (INVERTED_INDEX st) t = None \<or> map_of (INVERTED_INDEX st) t = Some []"
  shows "term_sum st N avg t d = 0"
  using assms by (auto simp: term_sum_def postings_sum_def)

lemma score_terms_sum:
  "score_terms st N avg ts sc = Inr sc' \<Longrightarrow>
   score_of sc' d = score_of sc d + (\<Sum>t\<leftarrow>ts. term_sum st N avg t d)"
proof (induction ts arbitrary: sc)
  case Nil
  then show ?case by simp
next
  case (Cons t ts)
  show ?case
  proof (cases "map_of (INVERTED_INDEX st) t = None \<or> map_of (INVERTED_INDEX st) t = Some []")
    case True
    from Cons.prems have "score_terms st N avg ts sc = Inr sc'"
      by (simp only: score_terms_skip [OF True])
    from Cons.IH [OF this] show ?thesis by (simp add: term_sum_skip [OF True])
  next
    case False
    then obtain ps where ps: "map_of (INVERTED_INDEX st) t = Some ps" and ne: "ps \<noteq> []" by auto
    from Cons.prems ps ne obtain i mid where i: "idf N (length ps) = Inr i"
      and mid: "score_postings st avg i ps sc = Inr mid"
      and run: "score_terms st N avg ts mid = Inr sc'"
      by (rule score_terms_step)
    have "score_of mid d = score_of sc d + postings_sum st avg i ps d"
      by (rule score_postings_sum [OF mid])
    moreover have "score_of sc' d = score_of mid d + (\<Sum>t\<leftarrow>ts. term_sum st N avg t d)"
      by (rule Cons.IH [OF run])
    ultimately show ?thesis using ps idf_Inr [OF i]
      by (simp add: term_sum_def)
  qed
qed

lemma score_terms_append:
  "score_terms st N avg (xs @ ys) sc =
     (case score_terms st N avg xs sc of Inl e \<Rightarrow> Inl e | Inr sc' \<Rightarrow> score_terms st N avg ys sc')"
  by (induction xs arbitrary: sc) (auto simp: Let_def split: option.splits sum.splits)

lemma score_terms_any_acc:
  "score_terms st N avg ts sc = Inr sc' \<Longrightarrow> \<exists>sc2'. score_terms st N avg ts sc2 = Inr sc2'"
proof (induction ts arbitrary: sc sc2)
  case Nil
  then show ?case by simp
next
  case (Cons t ts)
  show ?case
  proof (cases "map_of (INVERTED_INDEX st) t = None \<or> map_of (INVERTED_INDEX st) t = Some []")
    case True
    from Cons.prems have "score_terms st N avg ts sc = Inr sc'"
      by (simp only: score_terms_skip [OF True])
    from Cons.IH [OF this, of sc2] show ?thesis by (simp only: score_terms_skip [OF True])
  next
    case False
    then obtain ps where ps: "map_of (INVERTED_INDEX st) t = Some ps" and ne: "ps \<noteq> []" by auto
    from Cons.prems ps ne obtain i mid where i: "idf N (length ps) = Inr i"
      and mid: "score_postings st avg i ps sc = Inr mid"
      and run: "score_terms st N avg ts mid = Inr sc'"
      by (rule score_terms_step)
    from score_postings_any_acc [OF mid, of sc2] obtain mid2
      where mid2: "score_postings st avg i ps sc2 = Inr mid2" by blast
    from Cons.IH [OF run, of mid2] ps ne i mid2 show ?thesis
      by (simp add: Let_def)
  qed
qed

lemma matched_docs_skip:
  assumes "map_of (INVERTED_INDEX st) t = None \<or> map_of (INVERTED_INDEX st) t = Some []"
  shows "matched_docs st (t # ts) = matched_docs st ts"
  using assms by (auto simp: matched_docs_def)

lemma matched_docs_Cons:
  "map_of (INVERTED_INDEX st) t = Some ps \<Longrightarrow>
   matched_docs st (t # ts) = fst ` set ps \<union> matched_docs st ts"
  by (simp add: matched_docs_def)

lemma matched_docsD:
  "d \<in> matched_docs st q \<Longrightarrow>
   \<exists>t\<in>set q. \<exists>ps. map_of (INVERTED_INDEX st) t = Some ps \<and> d \<in> fst ` set ps"
  by (fastforce simp: matched_docs_def split: option.splits)

lemma score_terms_keys:
  "score_terms st N avg ts sc = Inr sc' \<Longrightarrow> fst ` set sc' = fst ` set sc \<union> matched_docs st ts"
proof (induction ts arbitrary: sc)
  case Nil
  then show ?case by (simp add: matched_docs_def)
next
  case (Cons t ts)
  show ?case
  proof (cases "map_of (INVERTED_INDEX st) t = None \<or> map_of (INVERTED_INDEX st) t = Some []")
    case True
    from Cons.prems have "score_terms st N avg ts sc = Inr sc'"
      by (simp only: score_terms_skip [OF True])
    from Cons.IH [OF this] show ?thesis by (simp only: matched_docs_skip [OF True])
  next
    case False
    then obtain ps where ps: "map_of (INVERTED_INDEX st) t = Some ps" and ne: "ps \<noteq> []" by auto
    from Cons.prems ps ne obtain i mid where
      mid: "score_postings st avg i ps sc = Inr mid"
      and run: "score_terms st N avg ts mid = Inr sc'"
      by (rule score_terms_step)
    from Cons.IH [OF run] score_postings_keys [OF mid] show ?thesis
      by (auto simp: matched_docs_Cons [OF ps])
  qed
qed

lemma score_terms_distinct:
  "score_terms st N avg ts sc = Inr sc' \<Longrightarrow> distinct (map fst sc) \<Longrightarrow> distinct (map fst sc')"
proof (induction ts arbitrary: sc)
  case Nil
  then show ?case by simp
next
  case (Cons t ts)
  show ?case
  proof (cases "map_of (INVERTED_INDEX st) t = None \<or> map_of (INVERTED_INDEX st) t = Some []")
    case True
    from Cons.prems(1) have "score_terms st N avg ts sc = Inr sc'"
      by (simp only: score_terms_skip [OF True])
    then show ?thesis using Cons.prems(2) by (rule Cons.IH)
  next
    case False
    then obtain ps where ps: "map_of (INVERTED_INDEX st) t = Some ps" and ne: "ps \<noteq> []" by auto
    from Cons.prems(1) ps ne obtain i mid where
      mid: "score_postings st avg i ps sc = Inr mid"
      and run: "score_terms st N avg ts mid = Inr sc'"
      by (rule score_terms_step)
    from mid Cons.prems(2) have "distinct (map fst mid)" by (rule score_postings_distinct)
    with run show ?thesis by (rule Cons.IH)
  qed
qed

lemma bm25_scores_distinct: "bm25_scores st q = Inr sc \<Longrightarrow> distinct (map fst sc)"
  unfolding bm25_scores_def by (erule score_terms_distinct) simp

section \<open>The code's sum and the formula of the specification\<close>

lemma postings_sum_lookup:
  "dict_wf ps \<Longrightarrow>
   postings_sum st avg i ps d =
     (case map_of ps d of None \<Rightarrow> 0 | Some f \<Rightarrow> posting_value st avg i d f)"
proof (induction ps)
  case Nil
  then show ?case by (simp add: postings_sum_def)
next
  case (Cons p ps)
  obtain k f where p: "p = (k, f)" by (cases p)
  from Cons.prems p have notin: "k \<notin> fst ` set ps" and wf: "dict_wf ps"
    by (simp_all add: dict_wf_def)
  show ?case
  proof (cases "k = d")
    case True
    with notin have "postings_sum st avg i ps d = 0" by (simp add: postings_sum_absent)
    with True p show ?thesis by (simp add: postings_sum_Cons)
  next
    case False
    with Cons.IH [OF wf] p show ?thesis by (simp add: postings_sum_Cons)
  qed
qed

lemma posting_value_spec:
  "posting_value st (avg_dl st) i d f =
     spec_contribution i (real_of_int f) (length_of st d) (avg_dl st)"
  by (simp add: posting_value_def spec_contribution_def length_of_def bm25_k1_def bm25_b_def)

lemma wf_postings: "globals_wf st \<Longrightarrow> map_of (INVERTED_INDEX st) t = Some ps \<Longrightarrow> dict_wf ps"
  by (auto simp: globals_wf_def list_all_iff dest!: map_of_SomeD)

lemma term_sum_spec:
  assumes "globals_wf st"
  shows "term_sum st (bm25_N st) (avg_dl st) t d =
     (case map_of (INVERTED_INDEX st) t of
        None \<Rightarrow> 0
      | Some ps \<Rightarrow>
          (case map_of ps d of
             None \<Rightarrow> 0
           | Some freq \<Rightarrow>
               spec_contribution (spec_idf (bm25_N st) (length ps)) (real_of_int freq)
                 (length_of st d) (avg_dl st)))"
proof (cases "map_of (INVERTED_INDEX st) t")
  case None
  then show ?thesis by (simp add: term_sum_def)
next
  case (Some ps)
  from wf_postings [OF assms Some] have "dict_wf ps" .
  then show ?thesis using Some
    by (simp add: term_sum_def postings_sum_lookup posting_value_spec spec_idf_def
        split: option.splits)
qed

lemma bm25_scores_spec:
  assumes "globals_wf st" and "bm25_scores st q = Inr sc"
  shows "score_of sc d = spec_score st q d"
proof -
  from assms(2)
  have "score_of sc d = score_of [] d + (\<Sum>t\<leftarrow>q. term_sum st (bm25_N st) (avg_dl st) t d)"
    unfolding bm25_scores_def by (rule score_terms_sum)
  also have "\<dots> = spec_score st q d"
    by (simp add: score_of_def spec_score_def term_sum_spec [OF assms(1)])
  finally show ?thesis .
qed

section \<open>Ranking and truncation\<close>

lemma ranked_sorted: "sorted_wrt (\<lambda>x y. snd y \<le> snd x) (ranked sc)"
proof -
  have "sorted (map (\<lambda>x. - snd x) (ranked sc))"
    unfolding ranked_def by (rule sorted_sort_key)
  then show ?thesis by (simp add: sorted_map)
qed

lemma set_ranked: "set (ranked sc) = set sc"
  by (simp add: ranked_def)

lemma length_ranked: "length (ranked sc) = length sc"
  by (simp add: ranked_def)

lemma res_score_entry: "res_score (result_entry st x) = snd x"
  by (simp add: result_entry_def split: option.splits)

lemma res_doc_id_entry: "res_doc_id (result_entry st x) = fst x"
  by (simp add: result_entry_def split: option.splits)

lemma slice_to_subset: "set (slice_to xs k) \<subseteq> set xs"
  by (auto simp: slice_to_def dest: in_set_takeD)

lemma score_terms_no_match:
  "\<forall>t\<in>set q. map_of (INVERTED_INDEX st) t = None \<or> map_of (INVERTED_INDEX st) t = Some [] \<Longrightarrow>
   score_terms st N avg q sc = Inr sc"
  by (induction q) auto

lemma bm25_scores_empty_index: "INVERTED_INDEX st = [] \<Longrightarrow> bm25_scores st q = Inr []"
  unfolding bm25_scores_def by (rule score_terms_no_match) simp

text \<open>The early return for an empty index gives what the loops would give.\<close>

lemma bm25_search_Inr:
  assumes "bm25_search st q k = Inr res"
  shows "\<exists>sc. bm25_scores st q = Inr sc \<and> res = map (result_entry st) (slice_to (ranked sc) k)"
proof (cases "INVERTED_INDEX st = []")
  case True
  with assms have "res = []" by (simp add: bm25_search_def)
  with True show ?thesis
    by (simp add: bm25_scores_empty_index ranked_def slice_to_def)
next
  case False
  with assms show ?thesis by (auto simp: bm25_search_def split: sum.splits)
qed

lemma bm25_search_member:
  assumes "bm25_search st q k = Inr res" and "r \<in> set res"
  shows "\<exists>sc. bm25_scores st q = Inr sc \<and> (res_doc_id r, res_score r) \<in> set sc"
proof -
  from bm25_search_Inr [OF assms(1)] obtain sc where sc: "bm25_scores st q = Inr sc"
    and res: "res = map (result_entry st) (slice_to (ranked sc) k)" by blast
  from assms(2) obtain x where x: "x \<in> set (slice_to (ranked sc) k)" and r: "r = result_entry st x"
    by (auto simp: res)
  from x slice_to_subset [of "ranked sc" k] have "x \<in> set sc" by (auto simp: set_ranked)
  with sc r show ?thesis by (auto simp: res_score_entry res_doc_id_entry)
qed

text \<open>
  The cases in which the ranker has nothing to return: an empty index, an empty query, a
  query none of whose terms has postings, and \<open>top_k = 0\<close>.
\<close>

lemma bm25_search_no_match:
  assumes "INVERTED_INDEX st = [] \<or> q = [] \<or>
           (\<forall>t\<in>set q. map_of (INVERTED_INDEX st) t = None \<or> map_of (INVERTED_INDEX st) t = Some [])"
  shows "bm25_search st q k = Inr []"
proof (cases "INVERTED_INDEX st = []")
  case True
  then show ?thesis by (simp add: bm25_search_def)
next
  case False
  with assms
  have "\<forall>t\<in>set q. map_of (INVERTED_INDEX st) t = None \<or> map_of (INVERTED_INDEX st) t = Some []"
    by auto
  then have "bm25_scores st q = Inr []"
    unfolding bm25_scores_def by (rule score_terms_no_match)
  then show ?thesis by (simp add: bm25_search_def ranked_def slice_to_def)
qed

lemma bm25_search_top_k_zero: "bm25_search st q 0 = Inr res \<Longrightarrow> res = []"
  by (auto simp: bm25_search_def slice_to_def split: if_splits sum.splits)

text \<open>No document is returned twice.\<close>

lemma distinct_ranked: "distinct (map fst sc) \<Longrightarrow> distinct (map fst (ranked sc))"
  by (simp add: distinct_map ranked_def)

lemma distinct_slice_to: "distinct (map fst xs) \<Longrightarrow> distinct (map fst (slice_to xs k))"
  by (simp add: slice_to_def take_map [symmetric])

lemma result_ids: "map res_doc_id (map (result_entry st) xs) = map fst xs"
  by (induction xs) (simp_all add: res_doc_id_entry)

lemma bm25_search_distinct:
  assumes "bm25_search st q k = Inr res"
  shows "distinct (map res_doc_id res)"
proof -
  from bm25_search_Inr [OF assms] obtain sc where sc: "bm25_scores st q = Inr sc"
    and res: "res = map (result_entry st) (slice_to (ranked sc) k)" by blast
  from sc have "distinct (map fst sc)" by (rule bm25_scores_distinct)
  then have "distinct (map fst (slice_to (ranked sc) k))"
    by (intro distinct_slice_to distinct_ranked)
  then show ?thesis by (simp only: res result_ids)
qed

section \<open>Signs and definedness of the scores\<close>

lemma idf_value:
  assumes "1 \<le> N" and "df \<le> N"
  shows "idf N df = Inr (spec_idf N df) \<and> 0 \<le> spec_idf N df"
proof -
  let ?x = "(real N - real df + 0.5) / (real df + 0.5) + 1"
  from assms have "0 \<le> (real N - real df + 0.5) / (real df + 0.5)" by simp
  then have x: "1 \<le> ?x" by simp
  then have "\<not> ?x \<le> 0" by linarith
  then have "idf N df = Inr (ln ?x)" by (simp add: idf_def Let_def)
  moreover from x have "0 \<le> ln ?x" by (rule ln_ge_zero)
  ultimately show ?thesis by (simp add: spec_idf_def)
qed

lemma idf_pos:
  assumes "df \<le> N" and "idf N df = Inr i"
  shows "0 < i"
proof -
  let ?x = "(real N - real df + 0.5) / (real df + 0.5) + 1"
  from assms(1) have "0 < (real N - real df + 0.5) / (real df + 0.5)" by simp
  then have "1 < ?x" by simp
  then have "0 < ln ?x" by simp
  with idf_Inr [OF assms(2)] show ?thesis by simp
qed

text \<open>
  \<open>math.log\<close> never raises in \<open>bm25_search\<close>: its argument is \<open>(N + 1) / (df + 0.5)\<close>.
\<close>

lemma idf_defined: "\<exists>i. idf N df = Inr i"
proof -
  have "(real N - real df + 0.5) / (real df + 0.5) + 1 = (real N + 1) / (real df + 0.5)"
    by (simp add: field_simps)
  moreover have "0 < (real N + 1) / (real df + 0.5)" by simp
  ultimately have "\<not> (real N - real df + 0.5) / (real df + 0.5) + 1 \<le> 0" by linarith
  then show ?thesis by (simp add: idf_def Let_def)
qed

lemma sum_list_nonneg_int: "\<forall>x\<in>set xs. (0::int) \<le> x \<Longrightarrow> 0 \<le> sum_list xs"
  by (induction xs) auto

lemma sum_list_pos_int: "xs \<noteq> [] \<Longrightarrow> \<forall>x\<in>set xs. (0::int) < x \<Longrightarrow> 0 < sum_list xs"
proof (induction xs)
  case Nil
  then show ?case by simp
next
  case (Cons a xs)
  then have "0 < a" and "\<forall>x\<in>set xs. 0 \<le> x" by (simp_all add: order_less_imp_le)
  then have "0 < a" and "0 \<le> sum_list xs" by (simp_all add: sum_list_nonneg_int)
  then show ?case by simp
qed

lemma avg_dl_nonneg: "lengths_nonneg st \<Longrightarrow> 0 \<le> avg_dl st"
proof -
  assume "lengths_nonneg st"
  then have "0 \<le> sum_list (map snd (DOC_LENGTHS st))"
    by (intro sum_list_nonneg_int) (auto simp: lengths_nonneg_def list_all_iff)
  then show ?thesis by (simp add: avg_dl_def)
qed

lemma lengths_positive_nonneg: "lengths_positive st \<Longrightarrow> lengths_nonneg st"
  by (auto simp: lengths_positive_def lengths_nonneg_def list_all_iff)

lemma avg_dl_pos: "lengths_positive st \<Longrightarrow> 0 < avg_dl st"
proof (cases "DOC_LENGTHS st = []")
  case True
  then show ?thesis by (simp add: avg_dl_def)
next
  case False
  assume "lengths_positive st"
  with False have "0 < sum_list (map snd (DOC_LENGTHS st))"
    by (intro sum_list_pos_int) (auto simp: lengths_positive_def list_all_iff)
  with False show ?thesis by (simp add: avg_dl_def)
qed

lemma length_of_nonneg: "lengths_nonneg st \<Longrightarrow> 0 \<le> length_of st d"
  by (auto simp: length_of_def avg_dl_nonneg lengths_nonneg_def list_all_iff
      split: option.splits dest!: map_of_SomeD)

lemma denominator_pos:
  assumes "lengths_nonneg st" and "0 < avg_dl st" and "1 \<le> f"
  shows "0 < real_of_int f + bm25_k1 * (1 - bm25_b + bm25_b * (length_of st d / avg_dl st))"
proof -
  from length_of_nonneg [OF assms(1)] assms(2) have "0 \<le> length_of st d / avg_dl st" by simp
  then have "0 \<le> bm25_k1 * (1 - bm25_b + bm25_b * (length_of st d / avg_dl st))"
    by (simp add: bm25_k1_def bm25_b_def)
  with assms(3) show ?thesis by linarith
qed

lemma posting_score_pos:
  assumes nn: "lengths_nonneg st" and i: "0 < i" and f: "1 \<le> f"
    and s: "posting_score st (avg_dl st) i d f = Inr s"
  shows "0 < s"
proof -
  let ?den = "real_of_int f + bm25_k1 * (1 - bm25_b + bm25_b * (length_of st d / avg_dl st))"
  from s have avg0: "avg_dl st \<noteq> 0" by (auto simp: posting_score_def split: if_splits)
  with avg_dl_nonneg [OF nn] have avg: "0 < avg_dl st" by simp
  have den: "0 < ?den" by (rule denominator_pos [OF nn avg f])
  from s avg0 den have "s = i * ((real_of_int f * (bm25_k1 + 1)) / ?den)"
    by (auto simp: posting_score_def length_of_def Let_def split: if_splits)
  moreover from f have "0 < real_of_int f * (bm25_k1 + 1)" by (simp add: bm25_k1_def)
  ultimately show ?thesis using i den by simp
qed

lemma posting_score_defined:
  assumes "lengths_positive st" and "1 \<le> f"
  shows "\<exists>s. posting_score st (avg_dl st) i d f = Inr s"
proof -
  from assms(1) have avg: "0 < avg_dl st" by (rule avg_dl_pos)
  from assms(1) have nn: "lengths_nonneg st" by (rule lengths_positive_nonneg)
  from denominator_pos [OF nn avg assms(2), of d] avg show ?thesis
    by (simp add: posting_score_def length_of_def Let_def)
qed

lemma add_score_pos:
  "\<forall>x\<in>set sc. 0 < snd x \<Longrightarrow> 0 < s \<Longrightarrow> \<forall>x\<in>set (add_score d s sc). 0 < snd x"
  by (induction d s sc rule: add_score.induct) (auto simp: add_pos_pos)

lemma score_postings_pos:
  assumes "lengths_nonneg st" and "0 < i"
  shows "\<forall>x\<in>set ps. 1 \<le> snd x \<Longrightarrow> \<forall>x\<in>set sc. 0 < snd x \<Longrightarrow>
         score_postings st (avg_dl st) i ps sc = Inr sc' \<Longrightarrow> \<forall>x\<in>set sc'. 0 < snd x"
proof (induction ps arbitrary: sc)
  case Nil
  then show ?case by simp
next
  case (Cons p ps)
  obtain k f where p: "p = (k, f)" by (cases p)
  from Cons.prems(3) p obtain s where s: "posting_score st (avg_dl st) i k f = Inr s"
    and run: "score_postings st (avg_dl st) i ps (add_score k s sc) = Inr sc'"
    by (auto split: sum.splits)
  from Cons.prems(1) p have f: "1 \<le> f" by simp
  have "0 < s" by (rule posting_score_pos [OF assms f s])
  with Cons.prems(2) have "\<forall>x\<in>set (add_score k s sc). 0 < snd x" by (rule add_score_pos)
  with Cons.prems(1) run show ?case by (intro Cons.IH) simp_all
qed

lemma score_postings_defined:
  assumes "lengths_positive st"
  shows "\<forall>x\<in>set ps. 1 \<le> snd x \<Longrightarrow> \<exists>sc'. score_postings st (avg_dl st) i ps sc = Inr sc'"
proof (induction ps arbitrary: sc)
  case Nil
  then show ?case by simp
next
  case (Cons p ps)
  obtain k f where p: "p = (k, f)" by (cases p)
  from Cons.prems p have f: "1 \<le> f" by simp
  from posting_score_defined [OF assms f] obtain s
    where s: "posting_score st (avg_dl st) i k f = Inr s" by blast
  from Cons.prems have "\<forall>x\<in>set ps. 1 \<le> snd x" by simp
  from Cons.IH [OF this, of "add_score k s sc"] s p show ?case by simp
qed

lemma score_terms_pos:
  assumes nn: "lengths_nonneg st" and fp: "freqs_positive st" and db: "df_bounded st"
  shows "\<forall>x\<in>set sc. 0 < snd x \<Longrightarrow>
         score_terms st (bm25_N st) (avg_dl st) ts sc = Inr sc' \<Longrightarrow> \<forall>x\<in>set sc'. 0 < snd x"
proof (induction ts arbitrary: sc)
  case Nil
  then show ?case by simp
next
  case (Cons t ts)
  show ?case
  proof (cases "map_of (INVERTED_INDEX st) t = None \<or> map_of (INVERTED_INDEX st) t = Some []")
    case True
    from Cons.prems(2) have "score_terms st (bm25_N st) (avg_dl st) ts sc = Inr sc'"
      by (simp only: score_terms_skip [OF True])
    with Cons.prems(1) show ?thesis by (rule Cons.IH)
  next
    case False
    then obtain ps where ps: "map_of (INVERTED_INDEX st) t = Some ps" and ne: "ps \<noteq> []" by auto
    from ps have mem: "(t, ps) \<in> set (INVERTED_INDEX st)" by (rule map_of_SomeD)
    from Cons.prems(2) ps ne obtain i mid where i: "idf (bm25_N st) (length ps) = Inr i"
      and mid: "score_postings st (avg_dl st) i ps sc = Inr mid"
      and run: "score_terms st (bm25_N st) (avg_dl st) ts mid = Inr sc'"
      by (rule score_terms_step)
    from db mem have "length ps \<le> bm25_N st" by (auto simp: df_bounded_def list_all_iff)
    then have ipos: "0 < i" using i by (rule idf_pos)
    from fp mem have "\<forall>x\<in>set ps. 1 \<le> snd x" by (auto simp: freqs_positive_def list_all_iff)
    then have "\<forall>x\<in>set mid. 0 < snd x"
      using Cons.prems(1) mid by (rule score_postings_pos [OF nn ipos])
    then show ?thesis using run by (rule Cons.IH)
  qed
qed

text \<open>
  On data with positive lengths and frequencies no division of the scoring loop has a
  zero divisor, so the loops run to their end.
\<close>

lemma score_terms_defined:
  assumes lp: "lengths_positive st" and fp: "freqs_positive st"
  shows "\<exists>sc'. score_terms st N (avg_dl st) ts sc = Inr sc'"
proof (induction ts arbitrary: sc)
  case Nil
  show ?case by simp
next
  case (Cons t ts)
  show ?case
  proof (cases "map_of (INVERTED_INDEX st) t = None \<or> map_of (INVERTED_INDEX st) t = Some []")
    case True
    from Cons.IH [of sc] show ?thesis by (simp only: score_terms_skip [OF True])
  next
    case False
    then obtain ps where ps: "map_of (INVERTED_INDEX st) t = Some ps" and ne: "ps \<noteq> []" by auto
    from ps have mem: "(t, ps) \<in> set (INVERTED_INDEX st)" by (rule map_of_SomeD)
    from idf_defined obtain i where i: "idf N (length ps) = Inr i" by blast
    from fp mem have "\<forall>x\<in>set ps. 1 \<le> snd x" by (auto simp: freqs_positive_def list_all_iff)
    from score_postings_defined [OF lp this, of i sc] obtain mid
      where mid: "score_postings st (avg_dl st) i ps sc = Inr mid" by blast
    from Cons.IH [of mid] ps ne i mid show ?thesis by (simp add: Let_def)
  qed
qed

lemma bm25_search_defined:
  assumes "lengths_positive st" and "freqs_positive st"
  shows "\<exists>res. bm25_search st q top_k = Inr res"
proof -
  from score_terms_defined [OF assms, of "bm25_N st" q "[]"]
  obtain sc where "bm25_scores st q = Inr sc" by (auto simp: bm25_scores_def)
  then show ?thesis by (simp add: bm25_search_def)
qed

section \<open>The example data evaluated\<close>

lemma bm25_example_wf: "globals_wf bm25_example"
  by (simp add: globals_wf_def dict_wf_def bm25_example_def)

lemma bm25_example_N: "bm25_N bm25_example = 10"
  by (simp add: bm25_N_def bm25_example_def)

lemma bm25_example_avg_dl: "avg_dl bm25_example = 40"
  by (simp add: avg_dl_def bm25_example_def)

lemma bm25_example_postings:
  "map_of (INVERTED_INDEX bm25_example) ''kompas'' = Some [(''0'', 3), (''1'', 1)]"
  by (simp add: bm25_example_def)

lemma bm25_example_idf: "idf 10 (Suc (Suc 0)) = Inr (ln (22 / 5))"
  by (simp add: idf_def Let_def)

lemma bm25_example_posting_0: "posting_score bm25_example 40 i ''0'' 3 = Inr (i * 80 / 51)"
  by (simp add: posting_score_def bm25_example_def bm25_k1_def bm25_b_def Let_def)

lemma bm25_example_posting_1: "posting_score bm25_example 40 i ''1'' 1 = Inr (i * 80 / 71)"
  by (simp add: posting_score_def bm25_example_def bm25_k1_def bm25_b_def Let_def)

lemma bm25_example_scores:
  "bm25_scores bm25_example [''kompas''] =
     Inr [(''0'', ln (22 / 5) * 80 / 51), (''1'', ln (22 / 5) * 80 / 71)]"
  by (simp add: bm25_scores_def bm25_example_N bm25_example_avg_dl bm25_example_postings
      bm25_example_idf bm25_example_posting_0 bm25_example_posting_1)

lemma bm25_example_data:
  "lengths_positive bm25_example \<and> lengths_nonneg bm25_example \<and>
   freqs_positive bm25_example \<and> df_bounded bm25_example"
  by (simp add: lengths_positive_def lengths_nonneg_def freqs_positive_def df_bounded_def
      bm25_example_N) (simp add: bm25_example_def)


lemma bm25_example_order: "ln (22 / 5) * 80 / 71 \<le> ln (22 / 5 :: real) * 80 / 51"
  by (simp add: mult_le_cancel_left)

lemma bm25_example_ranked:
  "ranked [(''0'', ln (22 / 5) * 80 / 51), (''1'', ln (22 / 5 :: real) * 80 / 71)] =
     [(''0'', ln (22 / 5) * 80 / 51), (''1'', ln (22 / 5) * 80 / 71)]"
  using bm25_example_order by (simp add: ranked_def)

lemma bm25_example_search:
  "bm25_search bm25_example [''kompas''] 1 =
     Inr [\<lparr>res_doc_id = ''0'', res_title = ''Untitled'', res_url = '''', res_image_url = '''',
           res_doc_len = None, res_score = ln (22 / 5) * 80 / 51\<rparr>]"
  by (simp add: bm25_search_def bm25_example_scores bm25_example_ranked slice_to_def result_entry_def)
    (simp add: bm25_example_def)

lemma two_doc_example_N: "bm25_N two_doc_example = 2"
  by (simp add: bm25_N_def two_doc_example_def)

lemma two_doc_example_avg_dl: "avg_dl two_doc_example = 300"
  by (simp add: avg_dl_def two_doc_example_def)

lemma two_doc_example_postings:
  "map_of (INVERTED_INDEX two_doc_example) ''a'' = Some [(''0'', 1), (''1'', 1)]"
  by (simp add: two_doc_example_def)

lemma two_doc_example_idf: "idf 2 (Suc (Suc 0)) = Inr (ln (6 / 5))"
  by (simp add: idf_def Let_def)

lemma two_doc_example_posting: "posting_score two_doc_example 300 i d 1 = Inr i"
  by (simp add: posting_score_def two_doc_example_def bm25_k1_def bm25_b_def Let_def)

lemma two_doc_example_scores:
  "bm25_scores two_doc_example [''a''] = Inr [(''0'', ln (6 / 5)), (''1'', ln (6 / 5))]"
  by (simp add: bm25_scores_def two_doc_example_N two_doc_example_avg_dl two_doc_example_postings two_doc_example_idf
      two_doc_example_posting)

lemma two_doc_example_ranked:
  "ranked [(''0'', ln (6 / 5)), (''1'', ln (6 / 5 :: real))] = [(''0'', ln (6 / 5)), (''1'', ln (6 / 5))]"
  by (simp add: ranked_def)

lemma negative_length_N: "bm25_N negative_length_example = 2"
  by (simp add: bm25_N_def negative_length_example_def)

lemma negative_length_avg_dl: "avg_dl negative_length_example = 1"
  by (simp add: avg_dl_def negative_length_example_def)

lemma negative_length_postings:
  "map_of (INVERTED_INDEX negative_length_example) ''a'' = Some [(''0'', 1)]"
  by (simp add: negative_length_example_def)

lemma negative_length_idf: "idf 2 (Suc 0) = Inr (ln 2)"
  by (simp add: idf_def Let_def)

lemma negative_length_posting: "posting_score negative_length_example 1 i ''0'' 1 = Inr (- (i * 20 / 889))"
  by (simp add: posting_score_def negative_length_example_def bm25_k1_def bm25_b_def Let_def)

lemma negative_length_scores:
  "bm25_scores negative_length_example [''a''] = Inr [(''0'', - (ln 2 * 20 / 889))]"
  by (simp add: bm25_scores_def negative_length_N negative_length_avg_dl negative_length_postings negative_length_idf negative_length_posting)

lemma negative_length_search:
  "bm25_search negative_length_example [''a''] 20 =
     Inr [\<lparr>res_doc_id = ''0'', res_title = ''A'', res_url = '''', res_image_url = '''',
           res_doc_len = Some (- 100), res_score = - (ln 2 * 20 / 889)\<rparr>]"
  by (simp add: bm25_search_def negative_length_scores ranked_def slice_to_def result_entry_def)
    (simp add: negative_length_example_def)

lemma negative_length_data: "freqs_positive negative_length_example \<and> df_bounded negative_length_example"
  by (simp add: freqs_positive_def df_bounded_def negative_length_N) (simp add: negative_length_example_def)

lemma negative_length_score_sign: "\<not> 0 < - (ln 2 * 20 / 889 :: real)"
  by simp

lemma example_strings:
  "py_strip ''Kompas  hari'' = ''Kompas  hari''"
  "py_split (py_lower ''Kompas  hari'') = [''kompas'', ''hari'']"
  "py_strip ('' Kompas'' @ [CHR 0x09] @ ''HARI  ini '') = ''Kompas'' @ [CHR 0x09] @ ''HARI  ini''"
  "py_split (py_lower (''Kompas'' @ [CHR 0x09] @ ''HARI  ini'')) = [''kompas'', ''hari'', ''ini'']"
  "py_strip ''   '' = ''''"
  "py_strip '''' = ''''"
  "py_strip ''a'' = ''a''"
  "py_split (py_lower ''a'') = [''a'']"
  by code_simp+

lemma example_ascii:
  "py_ascii ''Kompas  hari''"
  "py_ascii ('' Kompas'' @ [CHR 0x09] @ ''HARI  ini '')"
  "py_ascii ''   ''"
  "py_ascii ''''"
  "py_ascii ''abc''"
  "py_ascii ''20''"
  "py_ascii ''7''"
  "py_ascii ''007''"
  "py_ascii ''5''"
  "py_ascii ''005''"
  "py_ascii ''berita-1''"
  "py_ascii [CHR ''3'', CHR 0x1C]"
  "py_ascii [CHR 0x1F, CHR ''5'']"
  by code_simp+

lemma example_integers:
  "py_int ''abc'' = None"
  "py_int ''berita-1'' = None"
  "py_int [CHR ''3'', CHR 0x1C] = None"
  "py_int [CHR 0x1F, CHR ''5''] = None"
  "py_int ''20'' = Some 20"
  "py_int ''-1'' = Some (- 1)"
  "py_int ''5'' = Some 5"
  "py_int ''005'' = Some 5"
  "py_int ''7'' = Some 7"
  "py_int ''007'' = Some 7"
  "py_int ''6'' = Some 6"
  "py_int ''9'' = Some 9"
  "py_int ''0'' = Some 0"
  by code_simp+

lemma example_decimals:
  "py_str 0 = ''0''"
  "py_str 5 = ''5''"
  "py_str 6 = ''6''"
  "py_str 7 = ''7''"
  "py_str 9 = ''9''"
  by code_simp+

lemma catalog_example_init: "INIT_ERROR catalog_example = None"
  by (simp add: catalog_example_def)

lemma catalog_example_N: "bm25_N catalog_example = 1"
  by (simp add: bm25_N_def catalog_example_def)

lemma catalog_example_avg_dl: "avg_dl catalog_example = 7"
  by (simp add: avg_dl_def catalog_example_def)

lemma catalog_example_postings:
  "map_of (INVERTED_INDEX catalog_example) ''kompas'' = Some [(''5'', 2)]"
  "map_of (INVERTED_INDEX catalog_example) ''hari'' = None"
  "map_of (INVERTED_INDEX catalog_example) ''ini'' = None"
  by (simp_all add: catalog_example_def)

lemma catalog_example_idf: "idf (Suc 0) (Suc 0) = Inr (ln (4 / 3))"
  by (simp add: idf_def Let_def)

lemma catalog_example_posting: "posting_score catalog_example 7 i ''5'' 2 = Inr (i * 10 / 7)"
  by (simp add: posting_score_def catalog_example_def bm25_k1_def bm25_b_def Let_def)

lemma catalog_example_scores:
  "bm25_scores catalog_example [''kompas'', ''hari'', ''ini''] = Inr [(''5'', ln (4 / 3) * 10 / 7)]"
  by (simp add: bm25_scores_def catalog_example_N catalog_example_avg_dl catalog_example_postings
      catalog_example_idf catalog_example_posting)

lemma catalog_example_search:
  "bm25_search catalog_example [''kompas'', ''hari'', ''ini''] 7 =
     Inr [\<lparr>res_doc_id = ''5'', res_title = ''Berita'', res_url = ''u'', res_image_url = ''i'',
           res_doc_len = Some 7, res_score = ln (4 / 3) * 10 / 7\<rparr>]"
  by (simp add: bm25_search_def catalog_example_scores ranked_def slice_to_def result_entry_def)
    (simp add: catalog_example_def)

section \<open>The score of a document\<close>

text \<open>
  Claim C1.  Whenever the scoring loops of \<open>bm25_search\<close> run to their end, the score
  accumulated for a document \<open>d\<close> is the sum, over the occurrences of the query terms whose
  postings hold \<open>d\<close>, of \<open>idf * (tf * (k1 + 1)) / (tf + k1 * (1 - b + b * dl / avg_dl))\<close>
  with \<open>k1 = 1.5\<close>, \<open>b = 0.75\<close>, \<open>idf = ln ((N - df + 0.5) / (df + 0.5) + 1)\<close>, \<open>N\<close> the
  collection size, \<open>df\<close> the length of the term's postings, \<open>tf\<close> the stored frequency,
  \<open>dl\<close> the stored length of \<open>d\<close> or else \<open>avg_dl\<close>, and \<open>avg_dl\<close> the mean of the stored
  lengths or else \<open>300\<close>; every returned entry carries that score.  The dictionaries have
  distinct keys.
\<close>

theorem bm25_score_formula:
  assumes "globals_wf st" and "bm25_scores st q = Inr sc"
  shows "score_of sc d = spec_score st q d \<and>
         (bm25_search st q top_k = Inr res \<longrightarrow> r \<in> set res \<longrightarrow>
            res_score r = spec_score st q (res_doc_id r))"
proof (intro conjI impI)
  show "score_of sc d = spec_score st q d" for d
    using assms by (rule bm25_scores_spec)
  then have spec: "score_of sc (res_doc_id r) = spec_score st q (res_doc_id r)" .
  assume "bm25_search st q top_k = Inr res" and "r \<in> set res"
  then obtain sc' where "bm25_scores st q = Inr sc'" and "(res_doc_id r, res_score r) \<in> set sc'"
    using bm25_search_member by blast
  with assms(2) have mem: "(res_doc_id r, res_score r) \<in> set sc" by simp
  from assms(2) have "distinct (map fst sc)" by (rule bm25_scores_distinct)
  then have "score_of sc (res_doc_id r) = res_score r" using mem by (rule score_of_member)
  with spec show "res_score r = spec_score st q (res_doc_id r)" by simp
qed

text \<open>
  The numbers of the specification: \<open>N = 10\<close>, \<open>df = 2\<close>, \<open>tf = 3\<close>, \<open>dl = 50\<close> and
  \<open>avg_dl = 40\<close> give \<open>ln 4.4 * (3 * 2.5) / (3 + 1.5 * (0.25 + 0.75 * 50 / 40))\<close>.
\<close>

theorem bm25_score_formula_witness:
  "globals_wf bm25_example \<and> bm25_N bm25_example = 10 \<and> avg_dl bm25_example = 40 \<and>
   (\<exists>sc. bm25_scores bm25_example [''kompas''] = Inr sc \<and>
      score_of sc ''0'' = ln 4.4 * (3 * 2.5) / (3 + 1.5 * (0.25 + 0.75 * 50 / 40)))"
proof -
  let ?sc = "[(''0'', ln (22 / 5) * 80 / 51), (''1'', ln (22 / 5 :: real) * 80 / 71)]"
  have "score_of ?sc ''0'' = spec_score bm25_example [''kompas''] ''0''"
    using bm25_score_formula [OF bm25_example_wf bm25_example_scores, of "''0''"] by simp
  moreover have "spec_score bm25_example [''kompas''] ''0'' =
      ln 4.4 * (3 * 2.5) / (3 + 1.5 * (0.25 + 0.75 * 50 / 40))"
    by (simp add: spec_score_def bm25_example_postings bm25_example_N bm25_example_avg_dl
        spec_idf_def spec_contribution_def length_of_def)
      (simp add: bm25_example_def)
  ultimately show ?thesis
    by (simp only: bm25_example_wf bm25_example_N bm25_example_avg_dl bm25_example_scores) simp
qed

section \<open>The inverse document frequency\<close>

text \<open>
  Claim C9.  For a collection size \<open>N \<ge> 1\<close> and a document frequency \<open>df \<le> N\<close> the
  computation of \<open>idf\<close> raises no error, and its value
  \<open>ln ((N - df + 0.5) / (df + 0.5) + 1)\<close> is not negative.
\<close>

theorem idf_finite_nonneg:
  assumes "1 \<le> N" and "df \<le> N"
  shows "\<exists>v. idf N df = Inr v \<and> v = ln ((real N - real df + 0.5) / (real df + 0.5) + 1) \<and> 0 \<le> v"
  using idf_value [OF assms] by (simp add: spec_idf_def)

theorem idf_finite_nonneg_witness:
  "(1::nat) \<le> 10 \<and> (2::nat) \<le> 10 \<and> idf 10 2 = Inr (ln (22 / 5)) \<and> (0::real) \<le> ln (22 / 5)"
  using idf_finite_nonneg [of 10 2] by simp

section \<open>Repeated query terms\<close>

text \<open>
  The outer loop scores the postings of a term once for each of its occurrences in the
  query.  In this model, where the additions are exact, a term that occurs \<open>m\<close> times
  therefore adds \<open>m\<close> times what it adds when it occurs once.  The program adds in
  floating point, one rounded addition for each occurrence, which this model does not
  represent.
\<close>


lemma repeated_term_scores:
  assumes "bm25_scores st (q1 @ replicate m t @ q2) = Inr scm" and "0 < m"
  shows "\<exists>sc0 sc1. bm25_scores st (q1 @ q2) = Inr sc0 \<and> bm25_scores st [t] = Inr sc1 \<and>
           (\<forall>d. score_of scm d = score_of sc0 d + real m * score_of sc1 d)"
proof -
  let ?run = "score_terms st (bm25_N st) (avg_dl st)"
  let ?c = "\<lambda>d t. term_sum st (bm25_N st) (avg_dl st) t d"
  from assms(2) obtain m' where m: "m = Suc m'" by (cases m) auto
  from assms(1) obtain s1 where s1: "?run q1 [] = Inr s1"
    and rest: "?run (replicate m t @ q2) s1 = Inr scm"
    by (auto simp: bm25_scores_def score_terms_append split: sum.splits)
  from rest obtain s2 where s2: "?run (replicate m t) s1 = Inr s2" and s3: "?run q2 s2 = Inr scm"
    by (auto simp: score_terms_append split: sum.splits)
  from s2 m have "?run ([t] @ replicate m' t) s1 = Inr s2" by simp
  then obtain s4 where s4: "?run [t] s1 = Inr s4"
    unfolding score_terms_append by (auto split: sum.splits)
  from score_terms_any_acc [OF s4, of "[]"] obtain sc1 where sc1: "?run [t] [] = Inr sc1" by blast
  from score_terms_any_acc [OF s3, of s1] obtain sc0 where q2: "?run q2 s1 = Inr sc0" by blast
  with s1 have sc0: "?run (q1 @ q2) [] = Inr sc0" by (simp add: score_terms_append)
  have "score_of scm d = score_of sc0 d + real m * score_of sc1 d" for d
  proof -
    have "score_of scm d = score_of [] d + (\<Sum>x\<leftarrow>q1 @ replicate m t @ q2. ?c d x)"
      using assms(1) unfolding bm25_scores_def by (rule score_terms_sum)
    moreover have "score_of sc0 d = score_of [] d + (\<Sum>x\<leftarrow>q1 @ q2. ?c d x)"
      using sc0 by (rule score_terms_sum)
    moreover have "score_of sc1 d = score_of [] d + (\<Sum>x\<leftarrow>[t]. ?c d x)"
      using sc1 by (rule score_terms_sum)
    ultimately show ?thesis
      by (simp add: score_of_def sum_list_replicate)
  qed
  with sc0 sc1 show ?thesis by (auto simp: bm25_scores_def)
qed

text \<open>The term \<open>kompas\<close> asked twice doubles the score of document \<open>0\<close>.\<close>

lemma repeated_term_scores_example:
  "\<exists>scm. bm25_scores bm25_example [''kompas'', ''kompas''] = Inr scm \<and>
         score_of scm ''0'' = 2 * (ln (22 / 5) * 80 / 51)"
proof -
  from bm25_example_data have "lengths_positive bm25_example" and "freqs_positive bm25_example"
    by simp_all
  from score_terms_defined [OF this, of "bm25_N bm25_example" "[''kompas'', ''kompas'']" "[]"]
  obtain scm where scm: "bm25_scores bm25_example ([] @ replicate 2 ''kompas'' @ []) = Inr scm"
    by (auto simp: bm25_scores_def numeral_2_eq_2)
  from repeated_term_scores [OF scm] obtain sc0 sc1
    where "bm25_scores bm25_example ([] @ []) = Inr sc0"
      and "bm25_scores bm25_example [''kompas''] = Inr sc1"
      and "score_of scm ''0'' = score_of sc0 ''0'' + real 2 * score_of sc1 ''0''"
    by auto
  then have "score_of scm ''0'' = 2 * (ln (22 / 5) * 80 / 51)"
    by (simp add: bm25_example_scores) (auto simp: bm25_scores_def score_of_def)
  with scm show ?thesis by (auto simp: numeral_2_eq_2)
qed

section \<open>The result list\<close>

text \<open>
  Claim C3.  For a positive \<open>top_k\<close> the result list is sorted by non-increasing score, it
  has \<open>min top_k n\<close> entries where \<open>n\<close> is the number of scored documents, its entries are
  distinct scored documents, each with its score, and no scored document left out has a
  higher score than a returned one.  A request whose \<open>top_k\<close> parameter \<open>int\<close> does not
  accept is ranked with \<open>top_k = 20\<close>.  The request parameters are ASCII text.
\<close>

theorem top_k_ranking:
  "(bm25_search st q top_k = Inr res \<and> 0 < top_k \<longrightarrow>
      (\<exists>sc. bm25_scores st q = Inr sc \<and>
            sorted_wrt (\<lambda>x y. y \<le> x) (map res_score res) \<and>
            int (length res) = min top_k (int (length sc)) \<and>
            distinct (map res_doc_id res) \<and>
            (\<forall>r\<in>set res. (res_doc_id r, res_score r) \<in> set sc) \<and>
            (\<forall>x\<in>set sc. fst x \<notin> res_doc_id ` set res \<longrightarrow>
               (\<forall>r\<in>set res. snd x \<le> res_score r)))) \<and>
   (INIT_ERROR st = None \<and> doc_id_param req = None \<and> q_param req = Some qs \<and>
    py_ascii qs \<and> py_strip qs \<noteq> '''' \<and> top_k_param req = Some ks \<and> py_ascii ks \<and>
    py_int ks = None \<longrightarrow>
      snd (do_GET st req) = [Ranking (py_split (py_lower (py_strip qs))) 20] \<and>
      fst (do_GET st req) =
        (case bm25_search st (py_split (py_lower (py_strip qs))) 20 of
           Inl e \<Rightarrow> (500, RUNTIME_ERROR e)
         | Inr rs \<Rightarrow> (200, Search_results (py_strip qs) (length rs) rs)))"
proof (intro conjI impI; (elim conjE)?)
  assume run: "bm25_search st q top_k = Inr res" and pos: "0 < top_k"
  from bm25_search_Inr [OF run] obtain sc where sc: "bm25_scores st q = Inr sc"
    and res: "res = map (result_entry st) (slice_to (ranked sc) top_k)" by blast
  let ?top = "take (nat top_k) (ranked sc)"
  let ?rest = "drop (nat top_k) (ranked sc)"
  from pos have top: "slice_to (ranked sc) top_k = ?top" by (simp add: slice_to_def)
  have split: "?top @ ?rest = ranked sc" by simp
  have "sorted_wrt (\<lambda>x y. snd y \<le> snd x) (?top @ ?rest)"
    unfolding split by (rule ranked_sorted)
  then have st: "sorted_wrt (\<lambda>x y. snd y \<le> snd x) ?top"
    and cross: "\<forall>x\<in>set ?top. \<forall>y\<in>set ?rest. snd y \<le> snd x"
    unfolding sorted_wrt_append by blast+
  have sorted: "sorted_wrt (\<lambda>x y. y \<le> x) (map res_score res)"
    using st by (simp add: res top sorted_wrt_map res_score_entry)
  have len: "int (length res) = min top_k (int (length sc))"
  proof -
    have "length res = min (nat top_k) (length sc)"
      by (simp add: res top length_ranked)
    with pos show ?thesis by linarith
  qed
  have ids: "distinct (map res_doc_id res)"
    using run by (rule bm25_search_distinct)
  have mem: "(res_doc_id r, res_score r) \<in> set sc" if "r \<in> set res" for r
    using bm25_search_member [OF run that] sc by auto
  have low: "snd x \<le> res_score r"
    if x: "x \<in> set sc" and nx: "fst x \<notin> res_doc_id ` set res" and r: "r \<in> set res" for x r
  proof -
    from r obtain y where y: "y \<in> set ?top" and ry: "r = result_entry st y"
      by (auto simp: res top)
    have "set sc = set ?top \<union> set ?rest"
      by (metis set_ranked set_append append_take_drop_id)
    with x have "x \<in> set ?top \<or> x \<in> set ?rest" by blast
    moreover have "x \<notin> set ?top"
    proof
      assume "x \<in> set ?top"
      then have "result_entry st x \<in> set res" by (simp add: res top)
      then have "fst x \<in> res_doc_id ` set res"
        by (metis res_doc_id_entry image_eqI)
      with nx show False by contradiction
    qed
    ultimately have "x \<in> set ?rest" by blast
    with cross y have "snd x \<le> snd y" by blast
    then show ?thesis by (simp add: ry res_score_entry)
  qed
  from sc sorted len ids mem low
  show "\<exists>sc. bm25_scores st q = Inr sc \<and>
            sorted_wrt (\<lambda>x y. y \<le> x) (map res_score res) \<and>
            int (length res) = min top_k (int (length sc)) \<and>
            distinct (map res_doc_id res) \<and>
            (\<forall>r\<in>set res. (res_doc_id r, res_score r) \<in> set sc) \<and>
            (\<forall>x\<in>set sc. fst x \<notin> res_doc_id ` set res \<longrightarrow>
               (\<forall>r\<in>set res. snd x \<le> res_score r))"
    by blast
next
  assume a: "INIT_ERROR st = None" "doc_id_param req = None" "q_param req = Some qs"
    "py_strip qs \<noteq> ''''" "top_k_param req = Some ks" "py_int ks = None"
  then show "snd (do_GET st req) = [Ranking (py_split (py_lower (py_strip qs))) 20]"
    by (simp add: do_GET_def search_mode_def Let_def split: sum.splits)
  from a show "fst (do_GET st req) =
        (case bm25_search st (py_split (py_lower (py_strip qs))) 20 of
           Inl e \<Rightarrow> (500, RUNTIME_ERROR e)
         | Inr rs \<Rightarrow> (200, Search_results (py_strip qs) (length rs) rs))"
    by (simp add: do_GET_def search_mode_def Let_def split: sum.splits)
qed

text \<open>
  Two scored documents and \<open>top_k = 1\<close>: the one entry returned is the higher-scoring
  document.  Requests with \<open>top_k=abc\<close> and with \<open>top_k\<close> a digit followed by the
  separator \<open>0x1C\<close>, which \<open>int\<close> refuses, are ranked with \<open>top_k = 20\<close>.
\<close>

theorem top_k_ranking_witness:
  "bm25_search bm25_example [''kompas''] 1 =
     Inr [\<lparr>res_doc_id = ''0'', res_title = ''Untitled'', res_url = '''', res_image_url = '''',
           res_doc_len = None, res_score = ln (22 / 5) * 80 / 51\<rparr>] \<and>
   (0::int) < 1 \<and>
   (\<exists>sc. bm25_scores bm25_example [''kompas''] = Inr sc \<and> min 1 (int (length sc)) = 1 \<and>
      (\<forall>x\<in>set sc. fst x \<noteq> ''0'' \<longrightarrow> snd x \<le> ln (22 / 5) * 80 / 51)) \<and>
   snd (do_GET catalog_example
          \<lparr>doc_id_param = None, q_param = Some ''Kompas  hari'', top_k_param = Some ''abc''\<rparr>) =
     [Ranking [''kompas'', ''hari''] 20] \<and>
   snd (do_GET catalog_example
          \<lparr>doc_id_param = None, q_param = Some ''Kompas  hari'',
           top_k_param = Some [CHR ''3'', CHR 0x1C]\<rparr>) =
     [Ranking [''kompas'', ''hari''] 20]"
proof -
  let ?r = "\<lparr>res_doc_id = ''0'', res_title = ''Untitled'', res_url = '''', res_image_url = '''',
             res_doc_len = None, res_score = ln (22 / 5) * 80 / 51\<rparr>"
  let ?req = "\<lparr>doc_id_param = None, q_param = Some ''Kompas  hari'', top_k_param = Some ''abc''\<rparr>"
  let ?req' = "\<lparr>doc_id_param = None, q_param = Some ''Kompas  hari'',
                top_k_param = Some [CHR ''3'', CHR 0x1C]\<rparr>"
  note rank = top_k_ranking [where st = bm25_example and q = "[''kompas'']" and top_k = 1
      and res = "[?r]", THEN conjunct1]
  note facade = top_k_ranking [where st = catalog_example and req = ?req
      and qs = "''Kompas  hari''" and ks = "''abc''", THEN conjunct2]
  note facade' = top_k_ranking [where st = catalog_example and req = ?req'
      and qs = "''Kompas  hari''" and ks = "[CHR ''3'', CHR 0x1C]", THEN conjunct2]
  from facade have "snd (do_GET catalog_example ?req) = [Ranking [''kompas'', ''hari''] 20]"
    by (simp add: catalog_example_init example_strings example_integers example_ascii)
  moreover from facade'
  have "snd (do_GET catalog_example ?req') = [Ranking [''kompas'', ''hari''] 20]"
    by (simp add: catalog_example_init example_strings example_integers example_ascii)
  moreover from rank bm25_example_search
  have "\<exists>sc. bm25_scores bm25_example [''kompas''] = Inr sc \<and> min 1 (int (length sc)) = 1 \<and>
      (\<forall>x\<in>set sc. fst x \<noteq> ''0'' \<longrightarrow> snd x \<le> ln (22 / 5) * 80 / 51)"
    by (simp add: bm25_example_scores)
  ultimately show ?thesis using bm25_example_search by simp
qed

section \<open>A negative \<open>top_k\<close>\<close>

text \<open>
  Claim C2.  An empty index, an empty query, a query without postings and \<open>top_k = 0\<close> give
  the empty result list (\<open>bm25_search_no_match\<close>, \<open>bm25_search_top_k_zero\<close>).  A negative
  \<open>top_k\<close> does not: the slice \<open>ranked[:top_k]\<close> then drops entries from the end of the
  ranking and keeps the others.  With two scored documents and \<open>top_k = -1\<close> one entry
  is returned, as the request \<open>?q=a&top_k=-1\<close> shows.
\<close>

theorem bm25_search_negative_top_k:
  "bm25_search two_doc_example [''a''] (- 1) =
     Inr [\<lparr>res_doc_id = ''0'', res_title = ''Untitled'', res_url = '''', res_image_url = '''',
           res_doc_len = None, res_score = ln (6 / 5)\<rparr>] \<and>
   fst (do_GET two_doc_example
          \<lparr>doc_id_param = None, q_param = Some ''a'', top_k_param = Some ''-1''\<rparr>) =
     (200, Search_results ''a'' 1
        [\<lparr>res_doc_id = ''0'', res_title = ''Untitled'', res_url = '''', res_image_url = '''',
          res_doc_len = None, res_score = ln (6 / 5)\<rparr>])"
proof -
  have run: "bm25_search two_doc_example [''a''] (- 1) =
     Inr [\<lparr>res_doc_id = ''0'', res_title = ''Untitled'', res_url = '''', res_image_url = '''',
           res_doc_len = None, res_score = ln (6 / 5)\<rparr>]"
    by (simp add: bm25_search_def two_doc_example_scores two_doc_example_ranked slice_to_def
        result_entry_def)
      (simp add: two_doc_example_def)
  have init: "INIT_ERROR two_doc_example = None" by (simp add: two_doc_example_def)
  show ?thesis
    by (simp add: run do_GET_def search_mode_def Let_def init example_strings example_integers)
qed

section \<open>Scores of the returned entries\<close>

text \<open>
  Claim C10, as stated, fails on a metadata table with a negative \<open>doc_len\<close>: all
  frequencies are at least one and \<open>df \<le> N\<close>, and the one entry returned has a
  negative score.
\<close>

theorem positive_score_counterexample:
  "freqs_positive negative_length_example \<and> df_bounded negative_length_example \<and>
   bm25_search negative_length_example [''a''] 20 =
     Inr [\<lparr>res_doc_id = ''0'', res_title = ''A'', res_url = '''', res_image_url = '''',
           res_doc_len = Some (- 100), res_score = - (ln 2 * 20 / 889)\<rparr>] \<and>
   \<not> 0 < - (ln 2 * 20 / 889 :: real)"
  using negative_length_data negative_length_search negative_length_score_sign by simp

text \<open>
  Claim C10, amended.  Where every stored frequency is at least one, \<open>df \<le> N\<close> for every
  postings list and no stored document length is negative, every entry of the result list
  has a strictly positive score, and its document is held by the postings of a query term.
\<close>

theorem results_positive_matched:
  assumes "lengths_nonneg st" and "freqs_positive st" and "df_bounded st"
    and "bm25_search st q top_k = Inr res" and "r \<in> set res"
  shows "0 < res_score r \<and>
         (\<exists>t\<in>set q. \<exists>ps. map_of (INVERTED_INDEX st) t = Some ps \<and> res_doc_id r \<in> fst ` set ps)"
proof -
  from bm25_search_member [OF assms(4,5)] obtain sc where sc: "bm25_scores st q = Inr sc"
    and mem: "(res_doc_id r, res_score r) \<in> set sc" by blast
  from sc have run: "score_terms st (bm25_N st) (avg_dl st) q [] = Inr sc"
    by (simp add: bm25_scores_def)
  have pos: "\<forall>x\<in>set sc. 0 < snd x"
    by (rule score_terms_pos [OF assms(1-3) _ run]) simp
  from pos mem have "0 < snd (res_doc_id r, res_score r)" by (rule bspec)
  then have "0 < res_score r" by simp
  moreover have "fst (res_doc_id r, res_score r) \<in> fst ` set sc" using mem by (rule imageI)
  then have "res_doc_id r \<in> fst ` set sc" by simp
  with score_terms_keys [OF run] have "res_doc_id r \<in> matched_docs st q" by simp
  then have "\<exists>t\<in>set q. \<exists>ps. map_of (INVERTED_INDEX st) t = Some ps \<and> res_doc_id r \<in> fst ` set ps"
    by (rule matched_docsD)
  ultimately show ?thesis by blast
qed

theorem results_positive_matched_witness:
  "lengths_nonneg bm25_example \<and> freqs_positive bm25_example \<and> df_bounded bm25_example \<and>
   bm25_search bm25_example [''kompas''] 1 =
     Inr [\<lparr>res_doc_id = ''0'', res_title = ''Untitled'', res_url = '''', res_image_url = '''',
           res_doc_len = None, res_score = ln (22 / 5) * 80 / 51\<rparr>] \<and>
   0 < ln (22 / 5 :: real) * 80 / 51 \<and>
   (\<exists>ps. map_of (INVERTED_INDEX bm25_example) ''kompas'' = Some ps \<and> ''0'' \<in> fst ` set ps)"
proof -
  let ?r = "\<lparr>res_doc_id = ''0'', res_title = ''Untitled'', res_url = '''', res_image_url = '''',
             res_doc_len = None, res_score = ln (22 / 5) * 80 / 51\<rparr>"
  from bm25_example_data have d: "lengths_nonneg bm25_example" "freqs_positive bm25_example"
    "df_bounded bm25_example" by simp_all
  from results_positive_matched [OF d bm25_example_search, of ?r]
  have "0 < ln (22 / 5 :: real) * 80 / 51 \<and>
     (\<exists>ps. map_of (INVERTED_INDEX bm25_example) ''kompas'' = Some ps \<and> ''0'' \<in> fst ` set ps)"
    by simp
  with d bm25_example_search show ?thesis by simp
qed

section \<open>Integers as decimal strings\<close>

lemma digit_char_eq: "d < 10 \<Longrightarrow> (char_of (48 + d :: nat) = c) = ((of_char c :: nat) = 48 + d)"
  by (auto simp: char_of_eq_iff take_bit_eq_mod)

lemma digit_char_props:
  assumes "d < 10"
  shows "is_digit (char_of (48 + d))" and "digit_val (char_of (48 + d)) = d"
  using assms by (simp_all add: is_digit_def digit_val_def digit_char_eq)

lemma is_digit_not_space: "is_digit c \<Longrightarrow> \<not> int_isspace c"
  by (auto simp: is_digit_def int_isspace_def)

lemma is_digit_not_sign: "is_digit c \<Longrightarrow> c \<noteq> CHR ''-'' \<and> c \<noteq> CHR ''+''"
  by (auto simp: is_digit_def)

lemma digit_val_le: "is_digit c \<Longrightarrow> digit_val c \<le> 9"
  by (auto simp: is_digit_def digit_val_def Let_def)

lemma str_nat_digits: "str_nat n \<noteq> [] \<and> list_all is_digit (str_nat n)"
proof (induction n rule: str_nat.induct)
  case (1 n)
  show ?case
  proof (cases "n < 10")
    case True
    then show ?thesis by (simp add: str_nat.simps [of n] digit_char_props)
  next
    case False
    have "n mod 10 < 10" by simp
    then have "is_digit (char_of (48 + n mod 10))" by (rule digit_char_props)
    with False "1.IH" show ?thesis by (simp add: str_nat.simps [of n])
  qed
qed

lemma length_str_nat: "n < 10 ^ k \<Longrightarrow> 0 < k \<Longrightarrow> length (str_nat n) \<le> k"
proof (induction n arbitrary: k rule: str_nat.induct)
  case (1 n)
  show ?case
  proof (cases "n < 10")
    case True
    with "1.prems" show ?thesis by (simp add: str_nat.simps [of n])
  next
    case False
    from "1.prems"(2) obtain j where k: "k = Suc j" by (cases k) auto
    from False "1.prems"(1) k have j: "0 < j" by (cases j) auto
    from "1.prems"(1) k have "n div 10 < 10 ^ j"
      by (simp add: less_mult_imp_div_less mult.commute)
    from "1.IH" [OF False this j] False k show ?thesis by (simp add: str_nat.simps [of n])
  qed
qed

lemma parse_digits_snoc:
  "list_all is_digit xs \<Longrightarrow> is_digit c \<Longrightarrow>
   parse_digits (xs @ [c]) acc = map_option (\<lambda>v. 10 * v + digit_val c) (parse_digits xs acc)"
  by (induction xs acc rule: parse_digits.induct) auto

lemma parse_nat_snoc:
  assumes "xs \<noteq> []" and "list_all is_digit xs" and "is_digit c"
  shows "parse_nat (xs @ [c]) = map_option (\<lambda>v. 10 * v + digit_val c) (parse_nat xs)"
proof -
  from assms(1) obtain x xs' where xs: "xs = x # xs'" by (cases xs) auto
  with assms(2) have "is_digit x" and "list_all is_digit xs'" by simp_all
  with assms(3) xs show ?thesis by (simp add: parse_nat_def parse_digits_snoc)
qed

lemma parse_nat_str_nat: "parse_nat (str_nat n) = Some n"
proof (induction n rule: str_nat.induct)
  case (1 n)
  show ?case
  proof (cases "n < 10")
    case True
    then show ?thesis by (simp add: str_nat.simps [of n] parse_nat_def digit_char_props)
  next
    case False
    have d: "n mod 10 < 10" by simp
    from str_nat_digits [of "n div 10"] digit_char_props(1) [OF d]
    have "parse_nat (str_nat (n div 10) @ [char_of (48 + n mod 10)]) =
        map_option (\<lambda>v. 10 * v + digit_val (char_of (48 + n mod 10))) (parse_nat (str_nat (n div 10)))"
      by (intro parse_nat_snoc) simp_all
    with False "1.IH" digit_char_props(2) [OF d] show ?thesis
      by (simp add: str_nat.simps [of n])
  qed
qed

text \<open>The value of a digit string is below the power of ten of its number of digits.\<close>

lemma parse_digits_bound:
  "parse_digits cs acc = Some v \<Longrightarrow> v < (acc + 1) * 10 ^ length (filter is_digit cs)"
proof (induction cs acc arbitrary: v rule: parse_digits.induct)
  case (1 acc)
  then show ?case by simp
next
  case (2 c acc)
  then have c: "is_digit c" and v: "v = 10 * acc + digit_val c" by (auto split: if_splits)
  from digit_val_le [OF c] v c show ?case by simp
next
  case (3 c d ds acc)
  show ?case
  proof (cases "is_digit c")
    case True
    define K where "K = length (filter is_digit (d # ds))"
    from True "3.prems" have run: "parse_digits (d # ds) (10 * acc + digit_val c) = Some v" by simp
    from "3.IH"(1) [OF True run] have "v < (10 * acc + digit_val c + 1) * 10 ^ K"
      by (simp only: K_def)
    also from digit_val_le [OF True] have "\<dots> \<le> (10 * (acc + 1)) * 10 ^ K"
      by (intro mult_right_mono) simp_all
    also have "\<dots> = (acc + 1) * 10 ^ Suc K" by (simp add: algebra_simps)
    also from True have "Suc K = length (filter is_digit (c # d # ds))" by (simp add: K_def)
    finally show ?thesis .
  next
    case False
    define K where "K = length (filter is_digit ds)"
    from False "3.prems" have u: "c = CHR ''_''" and d: "is_digit d"
      and run: "parse_digits ds (10 * acc + digit_val d) = Some v"
      by (auto split: if_splits)
    from u d have cond: "c = CHR ''_'' \<and> is_digit d" by simp
    from "3.IH"(2) [OF False cond run] have "v < (10 * acc + digit_val d + 1) * 10 ^ K"
      by (simp only: K_def)
    also from digit_val_le [OF d] have "\<dots> \<le> (10 * (acc + 1)) * 10 ^ K"
      by (intro mult_right_mono) simp_all
    also have "\<dots> = (acc + 1) * 10 ^ Suc K" by (simp add: algebra_simps)
    also from False d have "Suc K = length (filter is_digit (c # d # ds))" by (simp add: K_def)
    finally show ?thesis .
  qed
qed

lemma parse_nat_bound:
  assumes "parse_nat s = Some m"
  shows "m < 10 ^ length (filter is_digit s) \<and> 0 < length (filter is_digit s)"
proof -
  from assms obtain c cs where s: "s = c # cs" and c: "is_digit c"
    and run: "parse_digits cs (digit_val c) = Some m"
    by (auto simp: parse_nat_def split: list.splits if_splits)
  from parse_digits_bound [OF run]
  have "m < (digit_val c + 1) * 10 ^ length (filter is_digit cs)" .
  also from digit_val_le [OF c] have "\<dots> \<le> 10 * 10 ^ length (filter is_digit cs)"
    by (intro mult_right_mono) simp_all
  finally show ?thesis using s c by simp
qed

lemma parse_limited_length:
  assumes "parse_limited s = Some m"
  shows "length (str_nat m) \<le> int_max_str_digits"
proof -
  from assms have lim: "length (filter is_digit s) \<le> int_max_str_digits"
    and p: "parse_nat s = Some m"
    by (auto simp: parse_limited_def split: if_splits)
  from parse_nat_bound [OF p] have "length (str_nat m) \<le> length (filter is_digit s)"
    by (intro length_str_nat) simp_all
  with lim show ?thesis by simp
qed

lemma parse_limited_str_nat:
  "length (str_nat m) \<le> int_max_str_digits \<Longrightarrow> parse_limited (str_nat m) = Some m"
proof -
  assume l: "length (str_nat m) \<le> int_max_str_digits"
  from str_nat_digits [of m] have "filter is_digit (str_nat m) = str_nat m"
    by (simp add: list_all_iff)
  with l show ?thesis by (simp add: parse_limited_def parse_nat_str_nat)
qed

lemma int_strip_id:
  assumes "s \<noteq> []" and "\<not> int_isspace (hd s)" and "\<not> int_isspace (last s)"
  shows "int_strip s = s"
proof -
  from assms(1,2) have "dropWhile int_isspace s = s" by (cases s) auto
  moreover from assms(1,3) have "dropWhile int_isspace (rev s) = rev s"
    by (cases "rev s") (auto simp: hd_rev [symmetric])
  ultimately show ?thesis by (simp add: int_strip_def)
qed

lemma py_int_py_str:
  assumes "length (str_nat (nat \<bar>n\<bar>)) \<le> int_max_str_digits"
  shows "py_int (py_str n) = Some n"
proof -
  let ?m = "nat \<bar>n\<bar>"
  let ?ds = "str_nat ?m"
  from str_nat_digits [of ?m] have ne: "?ds \<noteq> []" and dig: "list_all is_digit ?ds" by simp_all
  from ne dig have h: "is_digit (hd ?ds)" and l: "is_digit (last ?ds)"
    by (auto simp: list_all_iff)
  note parse = parse_limited_str_nat [OF assms]
  show ?thesis
  proof (cases "n < 0")
    case True
    then have s: "py_str n = CHR ''-'' # ?ds" by (simp add: py_str_def abs_if)
    have "\<not> int_isspace CHR ''-''" by (simp add: int_isspace_def)
    moreover from ne l have "\<not> int_isspace (last (CHR ''-'' # ?ds))"
      by (simp add: is_digit_not_space)
    ultimately have "int_strip (py_str n) = CHR ''-'' # ?ds"
      unfolding s by (intro int_strip_id) simp_all
    with True parse show ?thesis by (simp add: py_int_def)
  next
    case False
    then have s: "py_str n = ?ds" by (simp add: py_str_def abs_if)
    from ne h l have strip: "int_strip (py_str n) = ?ds"
      unfolding s by (intro int_strip_id) (simp_all add: is_digit_not_space)
    from ne obtain c cs where cs: "?ds = c # cs" by (cases ?ds) auto
    with h have "c \<noteq> CHR ''-'' \<and> c \<noteq> CHR ''+''" by (simp add: is_digit_not_sign)
    moreover from cs parse have "parse_limited (c # cs) = Some ?m" by simp
    ultimately show ?thesis using False strip cs by (simp add: py_int_def)
  qed
qed

text \<open>What \<open>int\<close> accepts, \<open>str\<close> writes in at most as many digits, and \<open>int\<close> reads back.\<close>

lemma py_int_canonical:
  assumes "py_int a = Some n"
  shows "py_int (py_str n) = Some n"
proof -
  from assms obtain body m where p: "parse_limited body = Some m" and n: "n = int m \<or> n = - int m"
    by (auto simp: py_int_def split: list.splits if_splits)
  from n have "nat \<bar>n\<bar> = m" by auto
  with parse_limited_length [OF p] show ?thesis by (intro py_int_py_str) simp
qed

lemma normalize_doc_id_idem: "normalize_doc_id (normalize_doc_id p) = normalize_doc_id p"
  by (cases "py_int p") (simp_all add: normalize_doc_id_def py_int_canonical)

section \<open>Stripping and splitting\<close>

text \<open>
  \<open>strip\<close> removes the whitespace at both ends and nothing else; \<open>split\<close> returns the
  maximal blocks of characters that are not whitespace, in their order.
\<close>

lemma dropWhile_all: "list_all P xs \<Longrightarrow> dropWhile P xs = []"
  by (induction xs) auto

lemma py_strip_blank: "(py_strip s = []) = list_all py_isspace s"
proof
  assume "py_strip s = []"
  then have "dropWhile py_isspace (rev (dropWhile py_isspace s)) = []"
    by (simp add: py_strip_def)
  then have "\<forall>c\<in>set (dropWhile py_isspace s). py_isspace c"
    by (simp add: dropWhile_eq_Nil_conv)
  then have "dropWhile py_isspace s = []"
    by (metis hd_dropWhile hd_in_set)
  then show "list_all py_isspace s" by (simp add: dropWhile_eq_Nil_conv list_all_iff)
next
  assume "list_all py_isspace s"
  then show "py_strip s = []" by (simp add: py_strip_def dropWhile_all)
qed

lemma dropWhile_hd: "m = [] \<or> \<not> P (hd m) \<Longrightarrow> dropWhile P m = m"
  by (cases m) auto

lemma dropWhile_prefix:
  "list_all P l \<Longrightarrow> m = [] \<or> \<not> P (hd m) \<Longrightarrow> dropWhile P (l @ m) = m"
  by (induction l) (simp_all add: dropWhile_hd)

lemma py_strip_core:
  assumes l: "list_all py_isspace l" and r: "list_all py_isspace r"
    and m: "m = [] \<or> (\<not> py_isspace (hd m) \<and> \<not> py_isspace (last m))"
  shows "py_strip (l @ m @ r) = m"
proof (cases "m = []")
  case True
  with l r have "list_all py_isspace (l @ m @ r)" by simp
  then have "py_strip (l @ m @ r) = []" by (simp only: py_strip_blank)
  with True show ?thesis by simp
next
  case False
  with m have h: "\<not> py_isspace (hd m)" and e: "\<not> py_isspace (last m)" by simp_all
  from False h have "m @ r = [] \<or> \<not> py_isspace (hd (m @ r))" by simp
  with l have "dropWhile py_isspace (l @ m @ r) = m @ r" by (rule dropWhile_prefix)
  moreover from r have "list_all py_isspace (rev r)" by (simp add: list_all_iff)
  moreover from False e have "rev m = [] \<or> \<not> py_isspace (hd (rev m))" by (simp add: hd_rev)
  ultimately have "dropWhile py_isspace (rev (dropWhile py_isspace (l @ m @ r))) = rev m"
    by (simp add: dropWhile_prefix)
  then show ?thesis by (simp add: py_strip_def)
qed

lemma split_ws_word:
  "list_all (\<lambda>c. \<not> py_isspace c) u \<Longrightarrow> split_ws (u @ v) cur = split_ws v (rev u @ cur)"
  by (induction u arbitrary: cur) simp_all

lemma py_split_Nil: "py_split [] = []"
  by (simp add: py_split_def)

lemma py_split_space: "py_isspace w \<Longrightarrow> py_split (w # v) = py_split v"
  by (simp add: py_split_def)

lemma py_split_word:
  assumes "u \<noteq> []" and "list_all (\<lambda>c. \<not> py_isspace c) u" and "v = [] \<or> py_isspace (hd v)"
  shows "py_split (u @ v) = u # py_split v"
proof (cases v)
  case Nil
  with assms(1) split_ws_word [OF assms(2), of "[]" "[]"] show ?thesis
    by (simp add: py_split_def)
next
  case (Cons w v')
  with assms(3) have "py_isspace w" by simp
  with Cons assms(1) split_ws_word [OF assms(2), of "w # v'" "[]"] show ?thesis
    by (simp add: py_split_def)
qed

section \<open>Detail requests\<close>



text \<open>
  Claim C6, as stated, fails on an identifier that the content table holds with an empty
  text and the metadata table does not hold: the answer is \<open>DOCUMENT_NOT_FOUND\<close>.
\<close>

theorem detail_not_found_counterexample:
  "map_of (DOC_CONTENT empty_content_example) (normalize_doc_id ''0'') = Some '''' \<and>
   fst (detail_mode empty_content_example ''0'') = (404, DOCUMENT_NOT_FOUND ''0'')"
proof -
  have "normalize_doc_id ''0'' = ''0''"
    by (simp add: normalize_doc_id_def example_integers example_decimals)
  then show ?thesis by (simp add: detail_mode_def Let_def empty_content_example_def)
qed

text \<open>
  Claim C6, amended.  A detail request fails with \<open>DOCUMENT_NOT_FOUND\<close> if and only if the
  normalized identifier has no metadata and no text other than the empty one (the content
  table lacks it or holds the empty string for it); otherwise the answer is the merged
  record, with the title \<open>Untitled\<close>, an empty \<open>url\<close> and \<open>image_url\<close> and no \<open>doc_len\<close>
  where the metadata is missing, and an empty \<open>content\<close> where the text is missing.
\<close>

theorem detail_not_found_iff:
  "(fst (detail_mode st p) = (404, DOCUMENT_NOT_FOUND (normalize_doc_id p))) =
     (map_of (DOC_META st) (normalize_doc_id p) = None \<and>
      (map_of (DOC_CONTENT st) (normalize_doc_id p) = None \<or>
       map_of (DOC_CONTENT st) (normalize_doc_id p) = Some '''')) \<and>
   (fst (detail_mode st p) \<noteq> (404, DOCUMENT_NOT_FOUND (normalize_doc_id p)) \<longrightarrow>
      fst (detail_mode st p) =
        (200, Document
           \<lparr>doc_doc_id = normalize_doc_id p,
            doc_title = (case map_of (DOC_META st) (normalize_doc_id p) of
                           Some m \<Rightarrow> title m | None \<Rightarrow> ''Untitled''),
            doc_url = (case map_of (DOC_META st) (normalize_doc_id p) of
                         Some m \<Rightarrow> url m | None \<Rightarrow> ''''),
            doc_image_url = (case map_of (DOC_META st) (normalize_doc_id p) of
                               Some m \<Rightarrow> image_url m | None \<Rightarrow> ''''),
            doc_doc_len = (case map_of (DOC_META st) (normalize_doc_id p) of
                             Some m \<Rightarrow> Some (doc_len m) | None \<Rightarrow> None),
            doc_content = (case map_of (DOC_CONTENT st) (normalize_doc_id p) of
                             Some c \<Rightarrow> c | None \<Rightarrow> '''')\<rparr>))"
  by (auto simp: detail_mode_def Let_def split: option.splits)

text \<open>Document \<open>6\<close> has text and no metadata; document \<open>9\<close> is unknown.\<close>

theorem detail_not_found_iff_witness:
  "fst (detail_mode catalog_example ''6'') =
     (200, Document \<lparr>doc_doc_id = ''6'', doc_title = ''Untitled'', doc_url = '''',
                     doc_image_url = '''', doc_doc_len = None, doc_content = ''lain''\<rparr>) \<and>
   fst (detail_mode catalog_example ''9'') = (404, DOCUMENT_NOT_FOUND ''9'')"
proof -
  have six: "normalize_doc_id ''6'' = ''6''" and nine: "normalize_doc_id ''9'' = ''9''"
    by (simp_all add: normalize_doc_id_def example_integers example_decimals)
  have meta6: "map_of (DOC_META catalog_example) ''6'' = None"
    and text6: "map_of (DOC_CONTENT catalog_example) ''6'' = Some ''lain''"
    and meta9: "map_of (DOC_META catalog_example) ''9'' = None"
    and text9: "map_of (DOC_CONTENT catalog_example) ''9'' = None"
    by (simp_all add: catalog_example_def)
  from detail_not_found_iff [of catalog_example "''6''"]
  have "fst (detail_mode catalog_example ''6'') =
     (200, Document \<lparr>doc_doc_id = ''6'', doc_title = ''Untitled'', doc_url = '''',
                     doc_image_url = '''', doc_doc_len = None, doc_content = ''lain''\<rparr>)"
    by (simp add: six meta6 text6)
  moreover from detail_not_found_iff [of catalog_example "''9''"]
  have "fst (detail_mode catalog_example ''9'') = (404, DOCUMENT_NOT_FOUND ''9'')"
    by (simp add: nine meta9 text9)
  ultimately show ?thesis by simp
qed

section \<open>Search requests\<close>

text \<open>
  Claim C7.  Without a load error and without a \<open>doc_id\<close> parameter, a request whose query
  text is empty after \<open>strip\<close>, that is, consists of whitespace only, is answered with
  status 400 and the missing-query message and calls neither the catalog nor the ranker.
  Any other query text is stripped, lowercased, split at whitespace and handed to
  \<open>bm25_search\<close> with the requested \<open>top_k\<close>, whose result or error makes the answer.
  Stripping removes the whitespace at both ends; splitting skips whitespace and returns
  each maximal block of other characters as one term.  The parameters are ASCII text.
\<close>

theorem missing_query:
  assumes "INIT_ERROR st = None" and "doc_id_param req = None"
    and "qtext = (case q_param req of Some s \<Rightarrow> s | None \<Rightarrow> '''')"
    and "ktext = (case top_k_param req of Some s \<Rightarrow> s | None \<Rightarrow> ''20'')"
    and "py_ascii qtext" and "py_ascii ktext"
    and "k = (case py_int ktext of Some n \<Rightarrow> n | None \<Rightarrow> 20)"
  shows "(py_strip qtext = '''' \<longrightarrow> do_GET st req = ((400, MISSING_QUERY), [])) \<and>
         (py_strip qtext \<noteq> '''' \<longrightarrow>
            snd (do_GET st req) = [Ranking (py_split (py_lower (py_strip qtext))) k] \<and>
            fst (do_GET st req) =
              (case bm25_search st (py_split (py_lower (py_strip qtext))) k of
                 Inl e \<Rightarrow> (500, RUNTIME_ERROR e)
               | Inr rs \<Rightarrow> (200, Search_results (py_strip qtext) (length rs) rs))) \<and>
         (py_strip qtext = '''') = list_all py_isspace qtext \<and>
         (list_all py_isspace l \<and> list_all py_isspace r \<and>
          (m = [] \<or> (\<not> py_isspace (hd m) \<and> \<not> py_isspace (last m))) \<longrightarrow>
            py_strip (l @ m @ r) = m) \<and>
         py_split [] = [] \<and>
         (py_isspace w \<longrightarrow> py_split (w # v) = py_split v) \<and>
         (u \<noteq> [] \<and> list_all (\<lambda>c. \<not> py_isspace c) u \<and> (v = [] \<or> py_isspace (hd v)) \<longrightarrow>
            py_split (u @ v) = u # py_split v) \<and>
         py_lower qtext = map lower_char qtext"
proof (intro conjI impI; (elim conjE)?)
  assume "py_strip qtext = ''''"
  with assms show "do_GET st req = ((400, MISSING_QUERY), [])"
    by (simp add: do_GET_def search_mode_def Let_def)
next
  assume ne: "py_strip qtext \<noteq> ''''"
  with assms show "snd (do_GET st req) = [Ranking (py_split (py_lower (py_strip qtext))) k]"
    by (simp add: do_GET_def search_mode_def Let_def split: sum.splits)
  from ne assms show "fst (do_GET st req) =
      (case bm25_search st (py_split (py_lower (py_strip qtext))) k of
         Inl e \<Rightarrow> (500, RUNTIME_ERROR e)
       | Inr rs \<Rightarrow> (200, Search_results (py_strip qtext) (length rs) rs))"
    by (simp add: do_GET_def search_mode_def Let_def split: sum.splits)
next
  show "(py_strip qtext = '''') = list_all py_isspace qtext" by (rule py_strip_blank)
next
  assume "list_all py_isspace l" and "list_all py_isspace r"
    and "m = [] \<or> (\<not> py_isspace (hd m) \<and> \<not> py_isspace (last m))"
  then show "py_strip (l @ m @ r) = m" by (rule py_strip_core)
next
  show "py_split [] = []" by (rule py_split_Nil)
next
  assume "py_isspace w"
  then show "py_split (w # v) = py_split v" by (rule py_split_space)
next
  assume "u \<noteq> []" and "list_all (\<lambda>c. \<not> py_isspace c) u" and "v = [] \<or> py_isspace (hd v)"
  then show "py_split (u @ v) = u # py_split v" by (rule py_split_word)
next
  show "py_lower qtext = map lower_char qtext" by (simp add: py_lower_def)
qed

text \<open>
  Queries of blanks and a missing query are refused.  The query \<open>Kompas\<close>, a tab,
  \<open>HARI\<close>, two blanks and \<open>ini\<close>, between blanks and with \<open>top_k=7\<close>, is ranked for the
  three terms \<open>kompas\<close>, \<open>hari\<close> and \<open>ini\<close>, and answered with the one document that holds
  the first of them.
\<close>

theorem missing_query_witness:
  "do_GET catalog_example \<lparr>doc_id_param = None, q_param = Some ''   '', top_k_param = None\<rparr> =
     ((400, MISSING_QUERY), []) \<and>
   do_GET catalog_example \<lparr>doc_id_param = None, q_param = None, top_k_param = None\<rparr> =
     ((400, MISSING_QUERY), []) \<and>
   do_GET catalog_example
     \<lparr>doc_id_param = None, q_param = Some ('' Kompas'' @ [CHR 0x09] @ ''HARI  ini ''),
      top_k_param = Some ''7''\<rparr> =
     ((200, Search_results (''Kompas'' @ [CHR 0x09] @ ''HARI  ini'') 1
              [\<lparr>res_doc_id = ''5'', res_title = ''Berita'', res_url = ''u'', res_image_url = ''i'',
                res_doc_len = Some 7, res_score = ln (4 / 3) * 10 / 7\<rparr>]),
      [Ranking [''kompas'', ''hari'', ''ini''] 7])"
proof -
  let ?blank = "\<lparr>doc_id_param = None, q_param = Some ''   '', top_k_param = None\<rparr>"
  let ?none = "\<lparr>doc_id_param = None, q_param = None, top_k_param = None\<rparr>"
  let ?q = "'' Kompas'' @ [CHR 0x09] @ ''HARI  ini ''"
  let ?words = "\<lparr>doc_id_param = None, q_param = Some ?q, top_k_param = Some ''7''\<rparr>"
  note refuse = missing_query [OF catalog_example_init, THEN conjunct1]
  note rank = missing_query [OF catalog_example_init, THEN conjunct2, THEN conjunct1]
  from refuse [of ?blank "''   ''" "''20''" 20]
  have "do_GET catalog_example ?blank = ((400, MISSING_QUERY), [])"
    by (simp add: example_strings example_integers example_ascii)
  moreover from refuse [of ?none "''''" "''20''" 20]
  have "do_GET catalog_example ?none = ((400, MISSING_QUERY), [])"
    by (simp add: example_strings example_integers example_ascii)
  moreover from rank [of ?words ?q "''7''" 7]
  have "snd (do_GET catalog_example ?words) = [Ranking [''kompas'', ''hari'', ''ini''] 7] \<and>
     fst (do_GET catalog_example ?words) =
       (200, Search_results (''Kompas'' @ [CHR 0x09] @ ''HARI  ini'') 1
          [\<lparr>res_doc_id = ''5'', res_title = ''Berita'', res_url = ''u'', res_image_url = ''i'',
            res_doc_len = Some 7, res_score = ln (4 / 3) * 10 / 7\<rparr>])"
    by (simp only: example_strings example_integers example_ascii catalog_example_search)
      simp
  then have "do_GET catalog_example ?words =
     ((200, Search_results (''Kompas'' @ [CHR 0x09] @ ''HARI  ini'') 1
              [\<lparr>res_doc_id = ''5'', res_title = ''Berita'', res_url = ''u'', res_image_url = ''i'',
                res_doc_len = Some 7, res_score = ln (4 / 3) * 10 / 7\<rparr>]),
      [Ranking [''kompas'', ''hari'', ''ini''] 7])"
    by (simp only: prod_eq_iff) simp
  ultimately show ?thesis by (simp only: simp_thms)
qed

section \<open>A failed start\<close>

text \<open>
  Claim C8.  While \<open>INIT_ERROR\<close> is set, every request, for a document or for a search, is
  answered with status 500 and that error, and calls neither the catalog nor the ranker.
\<close>

theorem init_error_refuses:
  assumes "INIT_ERROR st = Some msg"
  shows "do_GET st req = ((500, INIT_ERROR_body msg), [])"
  using assms by (simp add: do_GET_def)

theorem init_error_refuses_witness:
  "do_GET failed_example \<lparr>doc_id_param = Some ''5'', q_param = None, top_k_param = None\<rparr> =
     ((500, INIT_ERROR_body ''Failed to load inverted_index.json''), []) \<and>
   do_GET failed_example \<lparr>doc_id_param = None, q_param = Some ''kompas'', top_k_param = None\<rparr> =
     ((500, INIT_ERROR_body ''Failed to load inverted_index.json''), [])"
proof -
  have set: "INIT_ERROR failed_example = Some ''Failed to load inverted_index.json''"
    by (simp add: failed_example_def)
  from init_error_refuses [OF set] show ?thesis by simp
qed

end
